theory Spec2Isabelle
  imports Main
begin

section \<open>The rewriter of \<open>tools/refactor_errors.py\<close>\<close>

text \<open>
  The file read by \<open>refactor_file\<close> is a Python \<open>str\<close>; it is modelled as a
  \<open>string\<close>, one \<open>char\<close> per code point, for files whose code points lie below 256.
  Indices and lengths therefore count code points, as Python's do.
\<close>

subsection \<open>The rule table\<close>

text \<open>A transformation is the triple \<open>(old_variant, new_variant, field_name)\<close>.\<close>

type_synonym rule = "string \<times> string \<times> string"

definition transformations :: "rule list" where
  "transformations =
     [(''Validation'', ''Validation'', ''reason''),
      (''InternalError'', ''Internal'', ''message''),
      (''AssetError'', ''Asset'', ''message''),
      (''MalformedEnvToml'', ''EnvTomlError'', ''message'')]"

subsection \<open>The regular expression \<open>(AppError::old_variant)\s*\(\<close>\<close>

text \<open>
  \<open>\s\<close> in a \<open>str\<close> pattern is Unicode white space; below 256 these are the code
  points 9 to 13, 28 to 32, 133 and 160.
\<close>

definition is_space :: "char \<Rightarrow> bool" where
  "is_space c \<longleftrightarrow>
     (of_char c :: nat) \<in> {9, 10, 11, 12, 13, 28, 29, 30, 31, 32, 133, 160}"

text \<open>The literal part of the pattern, consumed at the head of the text.\<close>

fun match_literal :: "string \<Rightarrow> string \<Rightarrow> string option" where
  "match_literal [] s = Some s"
| "match_literal (p # ps) [] = None"
| "match_literal (p # ps) (c # cs) = (if p = c then match_literal ps cs else None)"

text \<open>
  The length of the match of the whole pattern at the head of the text, if it matches
  there: the literal, a run of white space, an opening parenthesis. Every \<open>old_variant\<close>
  of the table is a plain identifier, so it stands for itself in the pattern.
\<close>

definition match_at :: "string \<Rightarrow> string \<Rightarrow> nat option" where
  "match_at old_variant s =
     (case match_literal (''AppError::'' @ old_variant) s of
        None \<Rightarrow> None
      | Some rest \<Rightarrow>
          (case dropWhile is_space rest of
             [] \<Rightarrow> None
           | c # _ \<Rightarrow>
               if c = CHR ''(''
               then Some (length (''AppError::'' @ old_variant)
                          + length (takeWhile is_space rest) + 1)
               else None))"

text \<open>\<open>pattern.search\<close>: the leftmost match, as \<open>(match.start(), match.end())\<close>.\<close>

fun search_from :: "string \<Rightarrow> nat \<Rightarrow> string \<Rightarrow> (nat \<times> nat) option" where
  "search_from old_variant i [] = None"
| "search_from old_variant i (c # cs) =
     (case match_at old_variant (c # cs) of
        Some n \<Rightarrow> Some (i, i + n)
      | None \<Rightarrow> search_from old_variant (Suc i) cs)"

definition search :: "string \<Rightarrow> string \<Rightarrow> (nat \<times> nat) option" where
  "search old_variant new_content = search_from old_variant 0 new_content"

subsection \<open>The scan for the matching closing parenthesis\<close>

text \<open>
  The inner \<open>while idx < len(new_content) and open_parens > 0\<close> loop; it returns the
  final \<open>(idx, open_parens)\<close>.
\<close>

function scan :: "string \<Rightarrow> nat \<Rightarrow> int \<Rightarrow> nat \<times> int" where
  "scan new_content idx open_parens =
     (if idx < length new_content \<and> open_parens > 0
      then scan new_content (idx + 1)
             (if new_content ! idx = CHR ''('' then open_parens + 1
              else if new_content ! idx = CHR '')'' then open_parens - 1
              else open_parens)
      else (idx, open_parens))"
  by pat_completeness auto
termination
  by (relation "measure (\<lambda>(new_content, idx, open_parens). length new_content - idx)") auto

declare scan.simps [simp del]

text \<open>Python's \<open>s[a:b]\<close> for \<open>0 \<le> a\<close> and \<open>0 \<le> b\<close>.\<close>

definition slice :: "string \<Rightarrow> nat \<Rightarrow> nat \<Rightarrow> string" where
  "slice s a b = take (b - a) (drop a s)"

subsection \<open>One iteration of the \<open>while True\<close> loop\<close>

text \<open>
  The body of the loop: no match (the loop ends), a match whose scan ends with the count
  above 0 (the diagnostic is printed and the loop ends), or a splice. The count reaches 0
  only after at least one character, so \<open>idx - 1\<close> is never negative.
\<close>

datatype outcome = NoMatch | Unbalanced | Spliced string

definition step :: "rule \<Rightarrow> string \<Rightarrow> outcome" where
  "step r new_content =
     (case r of (old_variant, new_variant, field_name) \<Rightarrow>
        (case search old_variant new_content of
           None \<Rightarrow> NoMatch
         | Some (match_start, start_idx) \<Rightarrow>
             (case scan new_content start_idx 1 of (idx, open_parens) \<Rightarrow>
                if open_parens = 0
                then
                  let arg = slice new_content start_idx (idx - 1);
                      replacement =
                        ''AppError::'' @ new_variant @ '' { '' @ field_name @ '': ''
                          @ arg @ '' }''
                  in Spliced (take match_start new_content @ replacement
                              @ drop idx new_content)
                else Unbalanced)))"

subsection \<open>The loop of one rule, the loop over the rules, the file\<close>

text \<open>
  The state of the loops is the buffer and the lines printed so far. The loop of one
  rule has no bound in the source, so it is a partial function: \<open>None\<close> is a run
  that never ends.
\<close>

definition diagnostic :: "string \<Rightarrow> string" where
  "diagnostic filepath = ''Error: Could not find matching parenthesis in '' @ filepath"

partial_function (option) rewrite_rule ::
    "string \<Rightarrow> rule \<Rightarrow> string \<times> string list \<Rightarrow> (string \<times> string list) option" where
  "rewrite_rule filepath r st =
     (case step r (fst st) of
        NoMatch \<Rightarrow> Some st
      | Unbalanced \<Rightarrow> Some (fst st, snd st @ [diagnostic filepath])
      | Spliced b \<Rightarrow> rewrite_rule filepath r (b, snd st))"

declare rewrite_rule.simps [code]

fun apply_rules ::
    "string \<Rightarrow> rule list \<Rightarrow> string \<times> string list \<Rightarrow> (string \<times> string list) option" where
  "apply_rules filepath [] st = Some st"
| "apply_rules filepath (r # rs) st =
     (case rewrite_rule filepath r st of
        None \<Rightarrow> None
      | Some st' \<Rightarrow> apply_rules filepath rs st')"

text \<open>
  \<open>refactor_file\<close> on a file holding \<open>content\<close>: the final buffer, the lines printed,
  and what is written back to the file (\<open>None\<close>: the file is not opened for writing).
\<close>

record run =
  new_content :: string
  printed :: "string list"
  written :: "string option"

definition refactor_file :: "string \<Rightarrow> string \<Rightarrow> run option" where
  "refactor_file filepath content =
     (case apply_rules filepath transformations (content, []) of
        None \<Rightarrow> None
      | Some (buf, out) \<Rightarrow>
          if buf \<noteq> content
          then Some \<lparr>new_content = buf, printed = out @ [''Updating '' @ filepath],
                      written = Some buf\<rparr>
          else Some \<lparr>new_content = buf, printed = out, written = None\<rparr>)"

subsection \<open>Notions used to state the properties\<close>

text \<open>
  The effect of one character on the count of open parentheses, the loop of \<open>scan\<close>
  as a recursion over the text that is left, the net effect of a text on the count, the
  count after \<open>new_content[start:j]\<close> starting from 1, and the texts over which a
  count never reaches 0.
\<close>

fun upd :: "char \<Rightarrow> int \<Rightarrow> int" where
  "upd c d = (if c = CHR ''('' then d + 1 else if c = CHR '')'' then d - 1 else d)"

fun walk :: "string \<Rightarrow> int \<Rightarrow> nat \<times> int" where
  "walk [] d = (0, d)"
| "walk (c # cs) d =
     (if d > 0 then (case walk cs (upd c d) of (n, d') \<Rightarrow> (Suc n, d')) else (0, d))"

fun delta :: "string \<Rightarrow> int" where
  "delta [] = 0"
| "delta (c # cs) = upd c 0 + delta cs"

definition open_count :: "string \<Rightarrow> nat \<Rightarrow> nat \<Rightarrow> int" where
  "open_count buf start j = 1 + delta (slice buf start j)"

fun unclosed :: "int \<Rightarrow> string \<Rightarrow> bool" where
  "unclosed d [] \<longleftrightarrow> 0 < d"
| "unclosed d (c # cs) \<longleftrightarrow> 0 < d \<and> unclosed (upd c d) cs"

text \<open>Some match of the pattern in \<open>L @ U\<close> starts inside \<open>L\<close>.\<close>

fun starts_in :: "string \<Rightarrow> string \<Rightarrow> string \<Rightarrow> bool" where
  "starts_in old_variant [] U \<longleftrightarrow> False"
| "starts_in old_variant (c # cs) U \<longleftrightarrow>
     match_at old_variant (c # cs @ U) \<noteq> None \<or> starts_in old_variant cs U"

text \<open>
  The rest of the pattern, from the literal \<open>pat\<close> on, matches at the head of a text;
  and a text at whose head no rest of the pattern matches, so that no match which started
  before it runs into it.
\<close>

fun completes :: "string \<Rightarrow> string \<Rightarrow> bool" where
  "completes pat s =
     (case match_literal pat s of
        None \<Rightarrow> False
      | Some r \<Rightarrow> (case dropWhile is_space r of [] \<Rightarrow> False | c # _ \<Rightarrow> c = CHR ''(''))"

fun blocked :: "string \<Rightarrow> string \<Rightarrow> bool" where
  "blocked [] Z \<longleftrightarrow> \<not> completes [] Z"
| "blocked (p # ps) Z \<longleftrightarrow> \<not> completes (p # ps) Z \<and> blocked ps Z"

text \<open>An iteration that splices.\<close>

fun splices :: "outcome \<Rightarrow> bool" where
  "splices (Spliced b) \<longleftrightarrow> True"
| "splices NoMatch \<longleftrightarrow> False"
| "splices Unbalanced \<longleftrightarrow> False"

section \<open>Properties of the scan\<close>

lemma scan_walk:
  "idx \<le> length buf \<Longrightarrow>
   scan buf idx d = (idx + fst (walk (drop idx buf) d), snd (walk (drop idx buf) d))"
proof (induction buf idx d rule: scan.induct)
  case (1 buf idx d)
  show ?case
  proof (cases "idx < length buf \<and> d > 0")
    case True
    then have dr: "drop idx buf = buf ! idx # drop (Suc idx) buf"
      by (simp add: Cons_nth_drop_Suc)
    from True 1 have "scan buf (idx + 1) (upd (buf ! idx) d) =
        (idx + 1 + fst (walk (drop (idx + 1) buf) (upd (buf ! idx) d)),
         snd (walk (drop (idx + 1) buf) (upd (buf ! idx) d)))"
      by simp
    with True dr show ?thesis
      by (subst scan.simps) (simp add: split_beta)
  next
    case False
    then show ?thesis
      using 1(2) by (subst scan.simps) (cases "drop idx buf"; auto)
  qed
qed

lemma delta_append: "delta (xs @ ys) = delta xs + delta ys"
  by (induction xs) auto

lemma upd_delta: "upd c d = d + upd c 0"
  by simp

lemma walk_nonpos: "d \<le> 0 \<Longrightarrow> walk s d = (0, d)"
  by (cases s) auto

lemma walk_closed_iff:
  "0 < d \<Longrightarrow>
   walk s d = (n, 0) \<longleftrightarrow>
     (0 < n \<and> n \<le> length s \<and> d + delta (take n s) = 0
      \<and> (\<forall>j<n. 0 < d + delta (take j s)))"
proof (induction s arbitrary: d n)
  case Nil
  then show ?case by auto
next
  case (Cons c cs)
  show ?case
  proof (cases "0 < upd c d")
    case True
    have shift: "(\<forall>j<Suc m. 0 < d + delta (take j (c # cs)))
        \<longleftrightarrow> (\<forall>j<m. 0 < upd c d + delta (take j cs))" for m
    proof
      assume a: "\<forall>j<Suc m. 0 < d + delta (take j (c # cs))"
      show "\<forall>j<m. 0 < upd c d + delta (take j cs)"
      proof (intro allI impI)
        fix j assume "j < m"
        then have "0 < d + delta (take (Suc j) (c # cs))" using a by blast
        then show "0 < upd c d + delta (take j cs)" by (simp split: if_splits)
      qed
    next
      assume a: "\<forall>j<m. 0 < upd c d + delta (take j cs)"
      show "\<forall>j<Suc m. 0 < d + delta (take j (c # cs))"
      proof (intro allI impI)
        fix j assume j: "j < Suc m"
        show "0 < d + delta (take j (c # cs))"
        proof (cases j)
          case 0
          then show ?thesis using Cons.prems by simp
        next
          case (Suc k)
          then have "0 < upd c d + delta (take k cs)" using a j by simp
          then show ?thesis using Suc by (simp split: if_splits)
        qed
      qed
    qed
    show ?thesis
    proof (cases n)
      case 0
      then show ?thesis using Cons.prems by (simp split: prod.splits)
    next
      case (Suc m)
      have "walk (c # cs) d = (Suc m, 0) \<longleftrightarrow> walk cs (upd c d) = (m, 0)"
        using Cons.prems by (simp split: prod.splits)
      also have "\<dots> \<longleftrightarrow> (0 < m \<and> m \<le> length cs \<and> upd c d + delta (take m cs) = 0
          \<and> (\<forall>j<m. 0 < upd c d + delta (take j cs)))"
        using Cons.IH [OF True] .
      also have "\<dots> \<longleftrightarrow> (0 < Suc m \<and> Suc m \<le> length (c # cs)
          \<and> d + delta (take (Suc m) (c # cs)) = 0
          \<and> (\<forall>j<Suc m. 0 < d + delta (take j (c # cs))))"
        using True by (cases m) (auto simp: shift split: if_splits)
      finally show ?thesis using Suc by simp
    qed
  next
    case False
    then have z: "upd c d = 0" and c: "c = CHR '')''" and d: "d = 1"
      using Cons.prems by (auto split: if_splits)
    have w: "walk (c # cs) d = (1, 0)"
      using Cons.prems z by (simp add: walk_nonpos)
    show ?thesis
    proof (cases "n = 1")
      case True
      then show ?thesis using w c d by simp
    next
      case False
      have "\<not> (\<forall>j<n. 0 < d + delta (take j (c # cs)))" if "1 < n"
      proof
        assume "\<forall>j<n. 0 < d + delta (take j (c # cs))"
        with that have "0 < d + delta (take 1 (c # cs))" by blast
        then show False using c d by simp
      qed
      with False w show ?thesis by (cases n) auto
    qed
  qed
qed

lemma unclosed_pos: "unclosed d s \<Longrightarrow> 0 < d"
  by (cases s) auto

lemma unclosed_append:
  "unclosed d (xs @ ys) \<longleftrightarrow> unclosed d xs \<and> unclosed (d + delta xs) ys"
proof (induction xs arbitrary: d)
  case Nil
  then show ?case by (auto dest: unclosed_pos)
next
  case (Cons c cs)
  have "upd c d + delta cs = d + delta (c # cs)" by simp
  with Cons [of "upd c d"] show ?case by (simp del: upd.simps delta.simps)
qed

lemma unclosed_mono: "unclosed d s \<Longrightarrow> d \<le> e \<Longrightarrow> unclosed e s"
proof (induction s arbitrary: d e)
  case Nil
  then show ?case by simp
next
  case (Cons c cs)
  from Cons.prems have "unclosed (upd c d) cs" and "upd c d \<le> upd c e" by auto
  then have "unclosed (upd c e) cs" by (rule Cons.IH)
  with Cons.prems show ?case by simp
qed

lemma walk_open_iff: "0 < snd (walk s d) \<longleftrightarrow> unclosed d s"
  by (induction s arbitrary: d) (auto simp: split_beta)

lemma walk_nonneg: "0 \<le> d \<Longrightarrow> 0 \<le> snd (walk s d)"
  by (induction s arbitrary: d) (auto simp: split_beta)

lemma walk_closed_split:
  "0 < d \<Longrightarrow>
   walk s d = (n, 0) \<longleftrightarrow>
     (\<exists>arg S. s = arg @ CHR '')'' # S \<and> n = Suc (length arg) \<and> unclosed d arg
        \<and> d + delta arg = 1)"
proof (induction s arbitrary: d n)
  case Nil
  then show ?case by auto
next
  case (Cons c cs)
  show ?case
  proof (cases "0 < upd c d")
    case True
    show ?thesis
    proof
      assume w: "walk (c # cs) d = (n, 0)"
      then obtain m where n: "n = Suc m" and m: "walk cs (upd c d) = (m, 0)"
        using Cons.prems by (auto split: prod.splits)
      from Cons.IH [OF True, of m] m obtain arg S where
        a: "cs = arg @ CHR '')'' # S" "m = Suc (length arg)" "unclosed (upd c d) arg"
           "upd c d + delta arg = 1"
        by blast
      have "c # cs = (c # arg) @ CHR '')'' # S \<and> n = Suc (length (c # arg))
          \<and> unclosed d (c # arg) \<and> d + delta (c # arg) = 1"
        using a n Cons.prems by (auto split: if_splits)
      then show "\<exists>arg S. c # cs = arg @ CHR '')'' # S \<and> n = Suc (length arg)
          \<and> unclosed d arg \<and> d + delta arg = 1"
        by blast
    next
      assume "\<exists>arg S. c # cs = arg @ CHR '')'' # S \<and> n = Suc (length arg)
          \<and> unclosed d arg \<and> d + delta arg = 1"
      then obtain arg S where a: "c # cs = arg @ CHR '')'' # S" "n = Suc (length arg)"
          "unclosed d arg" "d + delta arg = 1"
        by blast
      show "walk (c # cs) d = (n, 0)"
      proof (cases arg)
        case Nil
        with a True show ?thesis by (auto split: if_splits)
      next
        case (Cons c' arg')
        with a have "cs = arg' @ CHR '')'' # S" "unclosed (upd c d) arg'"
            "upd c d + delta arg' = 1" "c' = c"
          by (auto split: if_splits)
        then have "walk cs (upd c d) = (Suc (length arg'), 0)"
          using Cons.IH [OF True, of "Suc (length arg')"] by blast
        with a Cons \<open>0 < d\<close> show ?thesis by simp
      qed
    qed
  next
    case False
    then have c: "c = CHR '')''" and d: "d = 1"
      using Cons.prems by (auto split: if_splits)
    have w: "walk (c # cs) d = (1, 0)"
      using c d by (simp add: walk_nonpos)
    show ?thesis
    proof
      assume "walk (c # cs) d = (n, 0)"
      with w have "n = 1" by simp
      then have "c # cs = [] @ CHR '')'' # cs \<and> n = Suc (length ([]::string))
          \<and> unclosed d [] \<and> d + delta [] = 1"
        using c d by simp
      then show "\<exists>arg S. c # cs = arg @ CHR '')'' # S \<and> n = Suc (length arg)
          \<and> unclosed d arg \<and> d + delta arg = 1"
        by blast
    next
      assume "\<exists>arg S. c # cs = arg @ CHR '')'' # S \<and> n = Suc (length arg)
          \<and> unclosed d arg \<and> d + delta arg = 1"
      then obtain arg S where a: "c # cs = arg @ CHR '')'' # S" "n = Suc (length arg)"
          "unclosed d arg" "d + delta arg = 1"
        by blast
      have "arg = []"
      proof (cases arg)
        case Nil
        then show ?thesis .
      next
        case (Cons c' arg')
        with a c d have "unclosed 0 arg'" by auto
        then show ?thesis by (auto dest: unclosed_pos)
      qed
      with a w show "walk (c # cs) d = (n, 0)" by simp
    qed
  qed
qed

text \<open>
  C1: started just after an opening parenthesis with the count at 1, the scan ends with
  the count at 0 exactly at the first index \<open>idx\<close> at which the count of
  \<open>new_content[start:idx]\<close> is 0, every shorter slice keeping it above 0: the index
  just past the character that closed the parenthesis. On \<open>(a(b)c)\<close> from index 1
  this is 7, past the last parenthesis, not 5, past the inner one.
\<close>

theorem scan_stops_past_matching_close:
  "scan ''(a(b)c)'' 1 1 = (7, 0) \<and>
   (start \<le> length buf \<longrightarrow>
      (scan buf start 1 = (idx, 0) \<longleftrightarrow>
         start < idx \<and> idx \<le> length buf \<and> open_count buf start idx = 0
         \<and> (\<forall>j. start \<le> j \<and> j < idx \<longrightarrow> 0 < open_count buf start j)))"
proof (intro conjI impI)
  show "scan ''(a(b)c)'' 1 1 = (7, 0)"
    by (simp add: scan.simps)
next
  assume le: "start \<le> length buf"
  let ?s = "drop start buf"
  have sc: "scan buf start 1 = (idx, 0) \<longleftrightarrow>
      start \<le> idx \<and> walk ?s 1 = (idx - start, 0)"
    using scan_walk [OF le, of 1] by (cases "walk ?s 1") auto
  have q: "(\<forall>j<idx - start. 0 < 1 + delta (take j ?s)) \<longleftrightarrow>
      (\<forall>j. start \<le> j \<and> j < idx \<longrightarrow> 0 < open_count buf start j)"
  proof
    assume a: "\<forall>j<idx - start. 0 < 1 + delta (take j ?s)"
    show "\<forall>j. start \<le> j \<and> j < idx \<longrightarrow> 0 < open_count buf start j"
    proof (intro allI impI)
      fix j assume "start \<le> j \<and> j < idx"
      then have "j - start < idx - start" by arith
      with a show "0 < open_count buf start j"
        by (simp add: open_count_def slice_def)
    qed
  next
    assume a: "\<forall>j. start \<le> j \<and> j < idx \<longrightarrow> 0 < open_count buf start j"
    show "\<forall>j<idx - start. 0 < 1 + delta (take j ?s)"
    proof (intro allI impI)
      fix j assume "j < idx - start"
      then have "start \<le> start + j \<and> start + j < idx" by arith
      with a have "0 < open_count buf start (start + j)" by blast
      then show "0 < 1 + delta (take j ?s)"
        by (simp add: open_count_def slice_def)
    qed
  qed
  show "scan buf start 1 = (idx, 0) \<longleftrightarrow>
         start < idx \<and> idx \<le> length buf \<and> open_count buf start idx = 0
         \<and> (\<forall>j. start \<le> j \<and> j < idx \<longrightarrow> 0 < open_count buf start j)"
    unfolding sc walk_closed_iff [of 1 ?s "idx - start", simplified] q [symmetric]
    using le by (auto simp: open_count_def slice_def)
qed

theorem scan_stops_past_matching_close_witness:
  "(1::nat) \<le> length ''(a(b)c)'' \<and> scan ''(a(b)c)'' 1 1 = (7, 0)
   \<and> open_count ''(a(b)c)'' 1 7 = 0 \<and> 0 < open_count ''(a(b)c)'' 1 5"
proof -
  have le: "(1::nat) \<le> length ''(a(b)c)''" by simp
  note t = scan_stops_past_matching_close [of 1 "''(a(b)c)''" 7]
  from t have s: "scan ''(a(b)c)'' 1 1 = (7, 0)" by (rule conjunct1)
  from t le have "scan ''(a(b)c)'' 1 1 = (7, 0) \<longleftrightarrow>
         (1::nat) < 7 \<and> 7 \<le> length ''(a(b)c)'' \<and> open_count ''(a(b)c)'' 1 7 = 0
         \<and> (\<forall>j. 1 \<le> j \<and> j < 7 \<longrightarrow> 0 < open_count ''(a(b)c)'' 1 j)"
    by blast
  with s have "open_count ''(a(b)c)'' 1 7 = 0"
    and "\<forall>j. 1 \<le> j \<and> j < 7 \<longrightarrow> 0 < open_count ''(a(b)c)'' 1 j"
    by blast+
  then have "open_count ''(a(b)c)'' 1 7 = 0 \<and> 0 < open_count ''(a(b)c)'' 1 5"
    by simp
  with le s show ?thesis by blast
qed

section \<open>Properties of the search\<close>

lemma match_literal_iff: "match_literal p s = Some r \<longleftrightarrow> s = p @ r"
  by (induction p s rule: match_literal.induct) auto

lemma not_space_paren [simp]: "\<not> is_space CHR ''(''"
  by (simp add: is_space_def)

lemma match_at_iff:
  "match_at old s = Some n \<longleftrightarrow>
   (\<exists>ws rest. s = ''AppError::'' @ old @ ws @ CHR ''('' # rest \<and> (\<forall>c\<in>set ws. is_space c)
      \<and> n = 10 + length old + length ws + 1)"
proof
  assume m: "match_at old s = Some n"
  then obtain r where r: "match_literal (''AppError::'' @ old) s = Some r"
    by (auto simp: match_at_def split: option.splits)
  then have s: "s = ''AppError::'' @ old @ r" by (simp add: match_literal_iff)
  from m r obtain rest where d: "dropWhile is_space r = CHR ''('' # rest"
    and n: "n = 10 + length old + length (takeWhile is_space r) + 1"
    by (auto simp: match_at_def split: option.splits list.splits if_splits)
  have "r = takeWhile is_space r @ CHR ''('' # rest"
    using d takeWhile_dropWhile_id [of is_space r] by simp
  with s n show "\<exists>ws rest. s = ''AppError::'' @ old @ ws @ CHR ''('' # rest \<and> (\<forall>c\<in>set ws. is_space c)
      \<and> n = 10 + length old + length ws + 1"
    by (metis set_takeWhileD)
next
  assume "\<exists>ws rest. s = ''AppError::'' @ old @ ws @ CHR ''('' # rest \<and> (\<forall>c\<in>set ws. is_space c)
      \<and> n = 10 + length old + length ws + 1"
  then obtain ws rest where s: "s = ''AppError::'' @ old @ ws @ CHR ''('' # rest"
    and ws: "\<forall>c\<in>set ws. is_space c" and n: "n = 10 + length old + length ws + 1"
    by blast
  have l: "match_literal (''AppError::'' @ old) s = Some (ws @ CHR ''('' # rest)"
    using s by (simp add: match_literal_iff)
  have t: "takeWhile is_space (ws @ CHR ''('' # rest) = ws"
    using ws by simp
  have d: "dropWhile is_space (ws @ CHR ''('' # rest) = CHR ''('' # rest"
    using ws by simp
  show "match_at old s = Some n"
    unfolding match_at_def l using t d n by simp
qed

lemma match_at_Nil [simp]: "match_at old [] = None"
  by (simp add: match_at_def)

lemma starts_in_append:
  "starts_in old (X @ Y) U \<longleftrightarrow> starts_in old X (Y @ U) \<or> starts_in old Y U"
  by (induction X) auto

lemma search_from_None: "search_from old i s = None \<longleftrightarrow> \<not> starts_in old s []"
  by (induction s arbitrary: i) (auto split: option.splits)

lemma search_from_Some:
  "search_from old i s = Some (a, b) \<longleftrightarrow>
   (\<exists>P U n. s = P @ U \<and> \<not> starts_in old P U \<and> match_at old U = Some n
      \<and> a = i + length P \<and> b = a + n)"
proof (induction s arbitrary: i)
  case Nil
  then show ?case by simp
next
  case (Cons c cs)
  show ?case
  proof (cases "match_at old (c # cs)")
    case (Some n)
    have "(\<exists>P U n. c # cs = P @ U \<and> \<not> starts_in old P U \<and> match_at old U = Some n
        \<and> a = i + length P \<and> b = a + n) \<longleftrightarrow> a = i \<and> b = i + n"
    proof
      assume "\<exists>P U n. c # cs = P @ U \<and> \<not> starts_in old P U \<and> match_at old U = Some n
        \<and> a = i + length P \<and> b = a + n"
      then obtain P U m where p: "c # cs = P @ U" "\<not> starts_in old P U"
          "match_at old U = Some m" "a = i + length P" "b = a + m"
        by blast
      have "P = []"
      proof (cases P)
        case Nil
        then show ?thesis .
      next
        case (Cons p ps)
        with p(1) have "p # ps @ U = c # cs" by simp
        with p(2) Cons Some show ?thesis by simp
      qed
      with p Some show "a = i \<and> b = i + n" by simp
    next
      assume "a = i \<and> b = i + n"
      then have "c # cs = [] @ (c # cs) \<and> \<not> starts_in old [] (c # cs)
          \<and> match_at old (c # cs) = Some n \<and> a = i + length ([]::string) \<and> b = a + n"
        using Some by simp
      then show "\<exists>P U n. c # cs = P @ U \<and> \<not> starts_in old P U \<and> match_at old U = Some n
        \<and> a = i + length P \<and> b = a + n"
        by blast
    qed
    with Some show ?thesis by auto
  next
    case None
    have "(\<exists>P U n. c # cs = P @ U \<and> \<not> starts_in old P U \<and> match_at old U = Some n
        \<and> a = i + length P \<and> b = a + n) \<longleftrightarrow>
        (\<exists>P U n. cs = P @ U \<and> \<not> starts_in old P U \<and> match_at old U = Some n
        \<and> a = Suc i + length P \<and> b = a + n)"
    proof
      assume "\<exists>P U n. c # cs = P @ U \<and> \<not> starts_in old P U \<and> match_at old U = Some n
        \<and> a = i + length P \<and> b = a + n"
      then obtain P U m where p: "c # cs = P @ U" "\<not> starts_in old P U"
          "match_at old U = Some m" "a = i + length P" "b = a + m"
        by blast
      from p None obtain ps where P: "P = c # ps"
        by (cases P) auto
      with p have "cs = ps @ U \<and> \<not> starts_in old ps U \<and> match_at old U = Some m
        \<and> a = Suc i + length ps \<and> b = a + m"
        by simp
      then show "\<exists>P U n. cs = P @ U \<and> \<not> starts_in old P U \<and> match_at old U = Some n
        \<and> a = Suc i + length P \<and> b = a + n"
        by blast
    next
      assume "\<exists>P U n. cs = P @ U \<and> \<not> starts_in old P U \<and> match_at old U = Some n
        \<and> a = Suc i + length P \<and> b = a + n"
      then obtain P U m where p: "cs = P @ U" "\<not> starts_in old P U"
          "match_at old U = Some m" "a = Suc i + length P" "b = a + m"
        by blast
      with None have "c # cs = (c # P) @ U \<and> \<not> starts_in old (c # P) U
        \<and> match_at old U = Some m \<and> a = i + length (c # P) \<and> b = a + m"
        by simp
      then show "\<exists>P U n. c # cs = P @ U \<and> \<not> starts_in old P U \<and> match_at old U = Some n
        \<and> a = i + length P \<and> b = a + n"
        by blast
    qed
    with None Cons.IH [of "Suc i"] show ?thesis by simp
  qed
qed

section \<open>Properties of one iteration\<close>

lemma search_Some:
  "search old buf = Some (a, b) \<longleftrightarrow>
   (\<exists>P ws rest. buf = P @ ''AppError::'' @ old @ ws @ CHR ''('' # rest
      \<and> \<not> starts_in old P (''AppError::'' @ old @ ws @ CHR ''('' # rest)
      \<and> (\<forall>c\<in>set ws. is_space c)
      \<and> a = length P \<and> b = length P + 10 + length old + length ws + 1)"
  unfolding search_def search_from_Some match_at_iff
  by (intro iffI; elim exE conjE; simp; blast)

lemma search_None: "search old buf = None \<longleftrightarrow> \<not> starts_in old buf []"
  by (simp add: search_def search_from_None)

lemma scan_after_match:
  "scan (P @ ''AppError::'' @ old @ ws @ CHR ''('' # rest)
        (length P + 10 + length old + length ws + 1) d
   = (length P + 10 + length old + length ws + 1 + fst (walk rest d), snd (walk rest d))"
proof -
  let ?buf = "P @ ''AppError::'' @ old @ ws @ CHR ''('' # rest"
  let ?b = "length P + 10 + length old + length ws + 1"
  have "?buf = (P @ ''AppError::'' @ old @ ws @ ''('') @ rest" by simp
  moreover have "length (P @ ''AppError::'' @ old @ ws @ ''('') = ?b" by simp
  ultimately have d: "drop ?b ?buf = rest"
    by (metis append_eq_conv_conj)
  have "?b \<le> length ?buf" by simp
  from scan_walk [OF this, of d] d show ?thesis by simp
qed

lemma step_NoMatch: "step (old, new, f) buf = NoMatch \<longleftrightarrow> \<not> starts_in old buf []"
proof -
  have "step (old, new, f) buf = NoMatch \<longleftrightarrow> search old buf = None"
    by (auto simp: step_def Let_def split: option.splits prod.splits)
  then show ?thesis by (simp add: search_None)
qed

lemma step_at_match:
  assumes "\<not> starts_in old P (''AppError::'' @ old @ ws @ CHR ''('' # rest)"
    and "\<forall>c\<in>set ws. is_space c"
  shows "step (old, new, f) (P @ ''AppError::'' @ old @ ws @ CHR ''('' # rest) =
     (if snd (walk rest 1) = 0
      then Spliced (P @ ''AppError::'' @ new @ '' { '' @ f @ '': ''
                    @ take (fst (walk rest 1) - 1) rest @ '' }''
                    @ drop (fst (walk rest 1)) rest)
      else Unbalanced)"
proof -
  define buf where "buf = P @ ''AppError::'' @ old @ ws @ CHR ''('' # rest"
  define b where "b = length P + 10 + length old + length ws + 1"
  define k where "k = fst (walk rest 1)"
  have s: "search old buf = Some (length P, b)"
    unfolding search_Some buf_def b_def using assms by blast
  have "buf = (P @ ''AppError::'' @ old @ ws @ ''('') @ rest"
    by (simp add: buf_def)
  moreover have "length (P @ ''AppError::'' @ old @ ws @ ''('') = b"
    by (simp add: b_def)
  ultimately have d: "drop b buf = rest"
    by (metis append_eq_conv_conj)
  have sl: "slice buf b (b + k - 1) = take (k - 1) rest"
    unfolding slice_def d by (cases k) simp_all
  have "drop (b + k) buf = drop k (drop b buf)"
    by (simp only: drop_drop add.commute)
  then have dr: "drop (b + k) buf = drop k rest"
    by (simp only: d)
  have tk: "take (length P) buf = P"
    by (simp add: buf_def)
  have sc: "scan buf b 1 = (b + k, snd (walk rest 1))"
    unfolding buf_def b_def k_def by (rule scan_after_match)
  have "step (old, new, f) buf =
     (if snd (walk rest 1) = 0
      then Spliced (P @ (''AppError::'' @ new @ '' { '' @ f @ '': ''
                    @ take (k - 1) rest @ '' }'') @ drop k rest)
      else Unbalanced)"
    by (simp only: step_def prod.case s option.case sc Let_def sl dr tk)
  then show ?thesis
    unfolding buf_def k_def by (simp only: append_assoc)
qed

lemma step_Spliced:
  "step (old, new, f) buf = Spliced b' \<longleftrightarrow>
   (\<exists>P ws arg S. buf = P @ ''AppError::'' @ old @ ws @ CHR ''('' # arg @ CHR '')'' # S
      \<and> \<not> starts_in old P (''AppError::'' @ old @ ws @ CHR ''('' # arg @ CHR '')'' # S)
      \<and> (\<forall>c\<in>set ws. is_space c) \<and> unclosed 1 arg \<and> delta arg = 0
      \<and> b' = P @ ''AppError::'' @ new @ '' { '' @ f @ '': '' @ arg @ '' }'' @ S)"
proof
  assume st: "step (old, new, f) buf = Spliced b'"
  then obtain a b where "search old buf = Some (a, b)"
    by (auto simp: step_def split: option.splits)
  then obtain P ws rest where
    buf: "buf = P @ ''AppError::'' @ old @ ws @ CHR ''('' # rest"
    and ns: "\<not> starts_in old P (''AppError::'' @ old @ ws @ CHR ''('' # rest)"
    and ws: "\<forall>c\<in>set ws. is_space c"
    unfolding search_Some by blast
  define k where "k = fst (walk rest 1)"
  from st have z: "snd (walk rest 1) = 0"
    and b': "b' = P @ ''AppError::'' @ new @ '' { '' @ f @ '': ''
                    @ take (k - 1) rest @ '' }'' @ drop k rest"
    unfolding buf step_at_match [OF ns ws] k_def by (auto split: if_splits)
  from z have "walk rest 1 = (k, 0)"
    unfolding k_def by (metis prod.collapse)
  then obtain arg S where r: "rest = arg @ CHR '')'' # S"
      and n: "k = Suc (length arg)" and u: "unclosed 1 arg"
      and dl: "1 + delta arg = 1"
    using walk_closed_split [of 1 rest k] by auto
  have b2: "b' = P @ ''AppError::'' @ new @ '' { '' @ f @ '': '' @ arg @ '' }'' @ S"
    unfolding b' n r by simp
  from dl have dl0: "delta arg = 0" by simp
  show "\<exists>P ws arg S. buf = P @ ''AppError::'' @ old @ ws @ CHR ''('' # arg @ CHR '')'' # S
      \<and> \<not> starts_in old P (''AppError::'' @ old @ ws @ CHR ''('' # arg @ CHR '')'' # S)
      \<and> (\<forall>c\<in>set ws. is_space c) \<and> unclosed 1 arg \<and> delta arg = 0
      \<and> b' = P @ ''AppError::'' @ new @ '' { '' @ f @ '': '' @ arg @ '' }'' @ S"
    using buf [unfolded r] ns [unfolded r] ws u dl0 b2 by blast
next
  assume "\<exists>P ws arg S. buf = P @ ''AppError::'' @ old @ ws @ CHR ''('' # arg @ CHR '')'' # S
      \<and> \<not> starts_in old P (''AppError::'' @ old @ ws @ CHR ''('' # arg @ CHR '')'' # S)
      \<and> (\<forall>c\<in>set ws. is_space c) \<and> unclosed 1 arg \<and> delta arg = 0
      \<and> b' = P @ ''AppError::'' @ new @ '' { '' @ f @ '': '' @ arg @ '' }'' @ S"
  then obtain P ws arg S where
    buf: "buf = P @ ''AppError::'' @ old @ ws @ CHR ''('' # arg @ CHR '')'' # S"
    and ns: "\<not> starts_in old P (''AppError::'' @ old @ ws @ CHR ''('' # arg @ CHR '')'' # S)"
    and ws: "\<forall>c\<in>set ws. is_space c" and u: "unclosed 1 arg" and dl: "delta arg = 0"
    and b': "b' = P @ ''AppError::'' @ new @ '' { '' @ f @ '': '' @ arg @ '' }'' @ S"
    by blast
  have w: "walk (arg @ CHR '')'' # S) 1 = (Suc (length arg), 0)"
    using walk_closed_split [of 1 "arg @ CHR '')'' # S" "Suc (length arg)"] u dl by auto
  show "step (old, new, f) buf = Spliced b'"
    unfolding buf step_at_match [OF ns ws] w b' by simp
qed

lemma step_Unbalanced:
  "step (old, new, f) buf = Unbalanced \<longleftrightarrow>
   (\<exists>P ws rest. buf = P @ ''AppError::'' @ old @ ws @ CHR ''('' # rest
      \<and> \<not> starts_in old P (''AppError::'' @ old @ ws @ CHR ''('' # rest)
      \<and> (\<forall>c\<in>set ws. is_space c) \<and> unclosed 1 rest)"
proof
  assume st: "step (old, new, f) buf = Unbalanced"
  then obtain a b where "search old buf = Some (a, b)"
    by (auto simp: step_def split: option.splits)
  then obtain P ws rest where
    buf: "buf = P @ ''AppError::'' @ old @ ws @ CHR ''('' # rest"
    and ns: "\<not> starts_in old P (''AppError::'' @ old @ ws @ CHR ''('' # rest)"
    and ws: "\<forall>c\<in>set ws. is_space c"
    unfolding search_Some by blast
  from st have "snd (walk rest 1) \<noteq> 0"
    unfolding buf step_at_match [OF ns ws] by (auto split: if_splits)
  with walk_nonneg [of 1 rest] have "0 < snd (walk rest 1)" by simp
  then have "unclosed 1 rest" by (simp add: walk_open_iff)
  with buf ns ws
  show "\<exists>P ws rest. buf = P @ ''AppError::'' @ old @ ws @ CHR ''('' # rest
      \<and> \<not> starts_in old P (''AppError::'' @ old @ ws @ CHR ''('' # rest)
      \<and> (\<forall>c\<in>set ws. is_space c) \<and> unclosed 1 rest"
    by blast
next
  assume "\<exists>P ws rest. buf = P @ ''AppError::'' @ old @ ws @ CHR ''('' # rest
      \<and> \<not> starts_in old P (''AppError::'' @ old @ ws @ CHR ''('' # rest)
      \<and> (\<forall>c\<in>set ws. is_space c) \<and> unclosed 1 rest"
  then obtain P ws rest where
    buf: "buf = P @ ''AppError::'' @ old @ ws @ CHR ''('' # rest"
    and ns: "\<not> starts_in old P (''AppError::'' @ old @ ws @ CHR ''('' # rest)"
    and ws: "\<forall>c\<in>set ws. is_space c" and u: "unclosed 1 rest"
    by blast
  from u have "0 < snd (walk rest 1)" by (simp add: walk_open_iff)
  then show "step (old, new, f) buf = Unbalanced"
    unfolding buf step_at_match [OF ns ws] by simp
qed

section \<open>Termination of the loops\<close>

lemma splice_fewer_parens:
  assumes "step (old, new, f) buf = Spliced b'"
    and "CHR ''('' \<notin> set new" and "CHR ''('' \<notin> set f"
  shows "count_list b' CHR ''('' < count_list buf CHR ''(''"
proof -
  from assms(1) obtain P ws arg S where
    buf: "buf = P @ ''AppError::'' @ old @ ws @ CHR ''('' # arg @ CHR '')'' # S"
    and b': "b' = P @ ''AppError::'' @ new @ '' { '' @ f @ '': '' @ arg @ '' }'' @ S"
    unfolding step_Spliced by blast
  have "count_list new CHR ''('' = 0" "count_list f CHR ''('' = 0"
    using assms(2,3) by (simp_all add: count_list_0_iff)
  then show ?thesis
    unfolding buf b' by simp
qed

lemma rewrite_rule_total:
  assumes "CHR ''('' \<notin> set new" and "CHR ''('' \<notin> set f"
  shows "\<exists>res. rewrite_rule filepath (old, new, f) st = Some res"
proof (induction "count_list (fst st) CHR ''(''" arbitrary: st rule: less_induct)
  case less
  show ?case
  proof (cases "step (old, new, f) (fst st)")
    case NoMatch
    then show ?thesis by (subst rewrite_rule.simps) simp
  next
    case Unbalanced
    then show ?thesis by (subst rewrite_rule.simps) simp
  next
    case (Spliced b)
    from splice_fewer_parens [OF Spliced assms]
    have "count_list (fst (b, snd st)) CHR ''('' < count_list (fst st) CHR ''(''"
      by simp
    from less [OF this] Spliced show ?thesis
      by (subst rewrite_rule.simps) simp
  qed
qed

lemma apply_rules_total:
  assumes "\<forall>r\<in>set rs. CHR ''('' \<notin> set (fst (snd r)) \<and> CHR ''('' \<notin> set (snd (snd r))"
  shows "\<exists>res. apply_rules filepath rs st = Some res"
  using assms
proof (induction rs arbitrary: st)
  case Nil
  then show ?case by simp
next
  case (Cons r rs)
  obtain old new f where r: "r = (old, new, f)" by (cases r) auto
  with Cons.prems obtain st' where "rewrite_rule filepath r st = Some st'"
    using rewrite_rule_total [of new f filepath old st] by auto
  moreover from Cons have "\<exists>res. apply_rules filepath rs st' = Some res" by simp
  ultimately show ?case by simp
qed

lemma transformations_no_paren:
  "\<forall>r\<in>set transformations.
     CHR ''('' \<notin> set (fst (snd r)) \<and> CHR ''('' \<notin> set (snd (snd r))"
  by (simp add: transformations_def)

lemma scan_bound: "fst (scan buf idx d) \<le> max idx (length buf)"
proof (induction buf idx d rule: scan.induct)
  case (1 buf idx d)
  show ?case
  proof (cases "idx < length buf \<and> d > 0")
    case True
    define d' where "d' = (if buf ! idx = CHR ''('' then d + 1
        else if buf ! idx = CHR '')'' then d - 1 else d)"
    have "fst (scan buf (idx + 1) d') \<le> max (idx + 1) (length buf)"
      unfolding d'_def using True by (rule 1)
    moreover have "scan buf idx d = scan buf (idx + 1) d'"
      unfolding d'_def using True by (subst scan.simps) simp
    ultimately show ?thesis using True by simp
  next
    case False
    then have c: "(idx < length buf \<and> d > 0) = False" by simp
    have "scan buf idx d = (idx, d)"
      by (subst scan.simps) (simp only: c if_False)
    then show ?thesis by simp
  qed
qed

text \<open>
  C9: \<open>refactor_file\<close> returns on every file: the loop of each rule of the table ends
  and the four loops are run one after the other, so a result exists for every path and
  content; the scan itself never moves past the end of the buffer.
\<close>

theorem refactor_file_terminates:
  "(\<exists>res. refactor_file filepath content = Some res)
   \<and> fst (scan buf idx d) \<le> max idx (length buf)"
proof
  from apply_rules_total [OF transformations_no_paren]
  obtain st where "apply_rules filepath transformations (content, []) = Some st"
    by blast
  then show "\<exists>res. refactor_file filepath content = Some res"
    by (cases st) (simp add: refactor_file_def)
next
  show "fst (scan buf idx d) \<le> max idx (length buf)"
    by (rule scan_bound)
qed

theorem refactor_file_terminates_witness:
  "(\<exists>res. refactor_file ''src/error.rs'' ''AppError::Validation(f(x))'' = Some res)
   \<and> fst (scan ''(a(b)c)'' 1 1) \<le> max 1 (length ''(a(b)c)'')"
  using refactor_file_terminates [of "''src/error.rs''" "''AppError::Validation(f(x))''"
      "''(a(b)c)''" 1 1]
  by blast

section \<open>Properties of one run\<close>

lemma walk_open_length: "0 < snd (walk s d) \<Longrightarrow> fst (walk s d) = length s"
  by (induction s arbitrary: d) (auto simp: split_beta split: if_splits)

lemma rewrite_rule_NoMatch:
  "step r buf = NoMatch \<Longrightarrow> rewrite_rule filepath r (buf, out) = Some (buf, out)"
  by (subst rewrite_rule.simps) simp

lemma rewrite_rule_Unbalanced:
  "step r buf = Unbalanced \<Longrightarrow>
   rewrite_rule filepath r (buf, out) = Some (buf, out @ [diagnostic filepath])"
  by (subst rewrite_rule.simps) simp

lemma rewrite_rule_Spliced:
  "step r buf = Spliced b \<Longrightarrow>
   rewrite_rule filepath r (buf, out) = rewrite_rule filepath r (b, out)"
  by (subst rewrite_rule.simps) simp

lemmas run_simps =
  rewrite_rule.simps step_def search_def match_at_def is_space_def scan.simps slice_def
  diagnostic_def refactor_file_def transformations_def

text \<open>
  C6: a splice replaces exactly the span from the start of the matched
  \<open>AppError::old_variant\<close>, through the white space and the opening parenthesis found
  by the search, to the closing parenthesis found by the scan, by
  \<open>AppError::new_variant { field_name: arg }\<close>, where \<open>arg\<close> is the text between the two
  parentheses; the text before and the text after are kept as they are.
\<close>

theorem splice_keeps_outside:
  assumes "step (old, new, f) buf = Spliced b'"
  shows "\<exists>P ws arg S.
      buf = P @ ''AppError::'' @ old @ ws @ ''('' @ arg @ '')'' @ S
    \<and> (\<forall>c\<in>set ws. is_space c)
    \<and> search old buf = Some (length P, length (P @ ''AppError::'' @ old @ ws @ ''(''))
    \<and> scan buf (length (P @ ''AppError::'' @ old @ ws @ ''('')) 1
        = (length (P @ ''AppError::'' @ old @ ws @ ''('' @ arg @ '')''), 0)
    \<and> b' = P @ ''AppError::'' @ new @ '' { '' @ f @ '': '' @ arg @ '' }'' @ S"
proof -
  from assms obtain P ws arg S where
    buf: "buf = P @ ''AppError::'' @ old @ ws @ CHR ''('' # arg @ CHR '')'' # S"
    and ns: "\<not> starts_in old P (''AppError::'' @ old @ ws @ CHR ''('' # arg @ CHR '')'' # S)"
    and ws: "\<forall>c\<in>set ws. is_space c" and u: "unclosed 1 arg" and dl: "delta arg = 0"
    and b': "b' = P @ ''AppError::'' @ new @ '' { '' @ f @ '': '' @ arg @ '' }'' @ S"
    unfolding step_Spliced by blast
  have s: "search old buf = Some (length P, length P + 10 + length old + length ws + 1)"
    unfolding search_Some using buf ns ws by blast
  have w: "walk (arg @ CHR '')'' # S) 1 = (Suc (length arg), 0)"
    using walk_closed_split [of 1 "arg @ CHR '')'' # S" "Suc (length arg)"] u dl by auto
  have sc: "scan buf (length P + 10 + length old + length ws + 1) 1
      = (length P + 10 + length old + length ws + 1 + Suc (length arg), 0)"
    unfolding buf scan_after_match w by simp
  have l1: "length (P @ ''AppError::'' @ old @ ws @ ''('')
      = length P + 10 + length old + length ws + 1"
    by simp
  have l2: "length (P @ ''AppError::'' @ old @ ws @ ''('' @ arg @ '')'')
      = length P + 10 + length old + length ws + 1 + Suc (length arg)"
    by simp
  have buf2: "buf = P @ ''AppError::'' @ old @ ws @ ''('' @ arg @ '')'' @ S"
    using buf by simp
  have "buf = P @ ''AppError::'' @ old @ ws @ ''('' @ arg @ '')'' @ S
    \<and> (\<forall>c\<in>set ws. is_space c)
    \<and> search old buf = Some (length P, length (P @ ''AppError::'' @ old @ ws @ ''(''))
    \<and> scan buf (length (P @ ''AppError::'' @ old @ ws @ ''('')) 1
        = (length (P @ ''AppError::'' @ old @ ws @ ''('' @ arg @ '')''), 0)
    \<and> b' = P @ ''AppError::'' @ new @ '' { '' @ f @ '': '' @ arg @ '' }'' @ S"
    unfolding l1 l2 using buf2 ws s sc b' by (intro conjI)
  then show ?thesis by blast
qed

theorem splice_keeps_outside_witness:
  "step (''InternalError'', ''Internal'', ''message'')
        ''let e = AppError::InternalError (fmt(a, b)); // done''
     = Spliced ''let e = AppError::Internal { message: fmt(a, b) }; // done''
   \<and> (\<exists>P ws arg S.
      ''let e = AppError::InternalError (fmt(a, b)); // done''
         = P @ ''AppError::'' @ ''InternalError'' @ ws @ ''('' @ arg @ '')'' @ S
    \<and> ''let e = AppError::Internal { message: fmt(a, b) }; // done''
         = P @ ''AppError::'' @ ''Internal'' @ '' { '' @ ''message'' @ '': '' @ arg @ '' }'' @ S)"
proof -
  have st: "step (''InternalError'', ''Internal'', ''message'')
        ''let e = AppError::InternalError (fmt(a, b)); // done''
     = Spliced ''let e = AppError::Internal { message: fmt(a, b) }; // done''"
    by (simp add: run_simps)
  from splice_keeps_outside [OF st] st show ?thesis by blast
qed

text \<open>
  C7: on a buffer in which no pattern of the table matches anywhere, \<open>refactor_file\<close>
  ends with the buffer it read, \<open>new_content \<noteq> content\<close> is false, nothing is printed
  and the file is not written.
\<close>

theorem no_match_no_write:
  assumes "\<forall>r\<in>set transformations. search (fst r) content = None"
  shows "refactor_file filepath content
     = Some \<lparr>new_content = content, printed = [], written = None\<rparr>"
proof -
  have nm: "step r content = NoMatch" if "r \<in> set transformations" for r
  proof -
    obtain old new f where r: "r = (old, new, f)" by (cases r) auto
    from assms that r have "search old content = None" by auto
    then show ?thesis by (simp add: r step_def)
  qed
  have "rewrite_rule filepath r (content, []) = Some (content, [])"
    if "r \<in> set transformations" for r
    using nm [OF that] by (rule rewrite_rule_NoMatch)
  then have "apply_rules filepath transformations (content, []) = Some (content, [])"
    by (simp add: transformations_def)
  then show ?thesis by (simp add: refactor_file_def)
qed

theorem no_match_no_write_witness:
  "search ''Validation'' ''fn main() { run(AppError::Io) }'' = None
   \<and> refactor_file ''src/main.rs'' ''fn main() { run(AppError::Io) }''
     = Some \<lparr>new_content = ''fn main() { run(AppError::Io) }'', printed = [],
             written = None\<rparr>"
proof -
  have h: "\<forall>r\<in>set transformations. search (fst r) ''fn main() { run(AppError::Io) }'' = None"
    by (simp add: transformations_def search_def match_at_def)
  then have "search ''Validation'' ''fn main() { run(AppError::Io) }'' = None"
    by (simp add: transformations_def)
  with no_match_no_write [OF h, of "''src/main.rs''"] show ?thesis by blast
qed

text \<open>
  C5, as the code has it: when the scan reaches the end of the buffer with the count
  still above 0, the iteration fails, the loop of the rule ends, and one line is printed,
  \<open>Error: Could not find matching parenthesis in\<close> followed by the file path. The line
  names the file only: neither the rule nor the offset of the occurrence.
\<close>

theorem unbalanced_prints_file_only:
  assumes "search old buf = Some (a, b)"
    and "scan buf b 1 = (idx, d)"
    and "0 < d"
  shows "idx = length buf
    \<and> step (old, new, f) buf = Unbalanced
    \<and> rewrite_rule filepath (old, new, f) (buf, out)
        = Some (buf, out @ [''Error: Could not find matching parenthesis in '' @ filepath])"
proof -
  from assms(1) have "b \<le> length buf"
    unfolding search_Some by auto
  from scan_walk [OF this, of 1] assms(2)
  have i: "idx = b + fst (walk (drop b buf) 1)" and d: "d = snd (walk (drop b buf) 1)"
    by simp_all
  from d assms(3) have "fst (walk (drop b buf) 1) = length (drop b buf)"
    by (simp add: walk_open_length)
  with i \<open>b \<le> length buf\<close> have l: "idx = length buf" by simp
  have st: "step (old, new, f) buf = Unbalanced"
    using assms by (simp add: step_def)
  from rewrite_rule_Unbalanced [OF st, of filepath out] l st
  show ?thesis by (simp add: diagnostic_def)
qed

theorem unbalanced_prints_file_only_witness:
  "search ''AssetError'' ''fn f() { AppError::AssetError(g(x)'' = Some (9, 30)
   \<and> scan ''fn f() { AppError::AssetError(g(x)'' 30 1 = (34, 1)
   \<and> step (''AssetError'', ''Asset'', ''message'') ''fn f() { AppError::AssetError(g(x)''
       = Unbalanced
   \<and> rewrite_rule ''a.rs'' (''AssetError'', ''Asset'', ''message'')
       (''fn f() { AppError::AssetError(g(x)'', [])
       = Some (''fn f() { AppError::AssetError(g(x)'',
               [''Error: Could not find matching parenthesis in a.rs''])"
proof -
  have s: "search ''AssetError'' ''fn f() { AppError::AssetError(g(x)'' = Some (9, 30)"
    by (simp add: search_def match_at_def is_space_def)
  have c: "scan ''fn f() { AppError::AssetError(g(x)'' 30 1 = (34, 1)"
    by (simp add: scan.simps)
  from unbalanced_prints_file_only [OF s c, of "''Asset''" "''message''" "''a.rs''" "[]"] s c
  show ?thesis by simp
qed

text \<open>
  Two failures in the same file, of different rules at different offsets, print the same
  line.
\<close>

theorem diagnostic_without_offset_counterexample:
  "search ''Validation'' ''AppError::Validation(x'' = Some (0, 21)
   \<and> search ''AssetError'' ''fn f() { AppError::AssetError(g(x)'' = Some (9, 30)
   \<and> refactor_file ''a.rs'' ''AppError::Validation(x''
       = Some \<lparr>new_content = ''AppError::Validation(x'',
               printed = [''Error: Could not find matching parenthesis in a.rs''],
               written = None\<rparr>
   \<and> refactor_file ''a.rs'' ''fn f() { AppError::AssetError(g(x)''
       = Some \<lparr>new_content = ''fn f() { AppError::AssetError(g(x)'',
               printed = [''Error: Could not find matching parenthesis in a.rs''],
               written = None\<rparr>"
  by (simp add: run_simps)

text \<open>
  C2, as the code has it: one splice leaves the argument as it is, so the first
  iteration on \<open>AppError::Foo(AppError::Foo(1))\<close> under the rule (Foo, Bar, x) gives
  \<open>AppError::Bar { x: AppError::Foo(1) }\<close>; the loop of the rule then searches the new
  buffer from its start, finds the inner occurrence and rewrites it too, so the pass for
  the rule ends with \<open>AppError::Bar { x: AppError::Bar { x: 1 } }\<close>. The same holds for
  the rule of the table for Validation.
\<close>

theorem nested_rewritten_by_same_pass:
  "step (''Foo'', ''Bar'', ''x'') ''AppError::Foo(AppError::Foo(1))''
     = Spliced ''AppError::Bar { x: AppError::Foo(1) }''
   \<and> rewrite_rule filepath (''Foo'', ''Bar'', ''x'') (''AppError::Foo(AppError::Foo(1))'', out)
     = Some (''AppError::Bar { x: AppError::Bar { x: 1 } }'', out)
   \<and> step (''Validation'', ''Validation'', ''reason'')
        ''AppError::Validation(AppError::Validation(1))''
     = Spliced ''AppError::Validation { reason: AppError::Validation(1) }''
   \<and> rewrite_rule filepath (''Validation'', ''Validation'', ''reason'')
        (''AppError::Validation(AppError::Validation(1))'', out)
     = Some (''AppError::Validation { reason: AppError::Validation { reason: 1 } }'', out)"
  by (simp add: run_simps)

text \<open>The pass for the rule does not end with the inner occurrence untouched.\<close>

theorem nested_untouched_counterexample:
  "rewrite_rule ''a.rs'' (''Foo'', ''Bar'', ''x'') (''AppError::Foo(AppError::Foo(1))'', [])
     \<noteq> Some (''AppError::Bar { x: AppError::Foo(1) }'', [])
   \<and> rewrite_rule ''a.rs'' (''Validation'', ''Validation'', ''reason'')
        (''AppError::Validation(AppError::Validation(1))'', [])
     \<noteq> Some (''AppError::Validation { reason: AppError::Validation(1) }'', [])"
  by (simp add: run_simps)

lemma apply_rules_append:
  "apply_rules filepath (rs @ rs') st =
     (case apply_rules filepath rs st of
        None \<Rightarrow> None
      | Some st' \<Rightarrow> apply_rules filepath rs' st')"
  by (induction rs arbitrary: st) (auto split: option.splits)

text \<open>
  C8: the loop over the rules runs the loop of each rule once, in the order of the list:
  on no rule the state is returned as it is, on one rule the result is that of the rule's
  loop, and on two lists joined the second is run on the state the first ends with. With
  the rules (Foo, Bar, x) and (Bar, Baz, y), \<open>AppError::Foo(1)\<close> becomes
  \<open>AppError::Bar { x: 1 }\<close>: the second rule finds nothing to rewrite in what the first
  produced, while it does rewrite an occurrence of its own in the buffer. A rule is not
  run again when a later rule produces an occurrence of its pattern, so the order of the
  list shows in the result, and a rule listed twice is run twice. For the rules of the
  table, the pattern of no rule matches at the head of a replacement text built by any
  rule, whatever the argument.
\<close>

theorem rules_once_in_order:
  "apply_rules filepath [] st = Some st
   \<and> apply_rules filepath [r] st = rewrite_rule filepath r st
   \<and> apply_rules filepath (rs @ rs') st =
       (case apply_rules filepath rs st of
          None \<Rightarrow> None
        | Some st' \<Rightarrow> apply_rules filepath rs' st')
   \<and> apply_rules filepath [(''Foo'', ''Bar'', ''x''), (''Bar'', ''Baz'', ''y'')]
       (''AppError::Foo(1)'', out)
       = Some (''AppError::Bar { x: 1 }'', out)
   \<and> apply_rules filepath [(''Foo'', ''Bar'', ''x''), (''Bar'', ''Baz'', ''y'')]
       (''AppError::Foo(1) AppError::Bar(2)'', out)
       = Some (''AppError::Bar { x: 1 } AppError::Baz { y: 2 }'', out)
   \<and> apply_rules filepath [(''Foo'', ''Bar'', ''x''), (''Qux'', ''Foo(z)'', ''y'')]
       (''AppError::Qux(1)'', out)
       = Some (''AppError::Foo(z) { y: 1 }'', out)
   \<and> apply_rules filepath [(''Qux'', ''Foo(z)'', ''y''), (''Foo'', ''Bar'', ''x'')]
       (''AppError::Qux(1)'', out)
       = Some (''AppError::Bar { x: z } { y: 1 }'', out)
   \<and> apply_rules filepath [(''Validation'', ''Validation'', ''reason''),
         (''Validation'', ''Validation'', ''reason'')]
       (''AppError::Validation(x'', out)
       = Some (''AppError::Validation(x'', out @ [diagnostic filepath, diagnostic filepath])
   \<and> (\<forall>r\<in>set transformations. \<forall>r'\<in>set transformations.
        match_at (fst r')
          (''AppError::'' @ fst (snd r) @ '' { '' @ snd (snd r) @ '': '' @ rest) = None)"
proof (intro conjI)
  show "apply_rules filepath [] st = Some st" by simp
  show "apply_rules filepath [r] st = rewrite_rule filepath r st"
    by (simp split: option.splits)
  show "apply_rules filepath (rs @ rs') st =
       (case apply_rules filepath rs st of
          None \<Rightarrow> None
        | Some st' \<Rightarrow> apply_rules filepath rs' st')"
    by (rule apply_rules_append)
  show "apply_rules filepath [(''Foo'', ''Bar'', ''x''), (''Bar'', ''Baz'', ''y'')]
       (''AppError::Foo(1)'', out)
       = Some (''AppError::Bar { x: 1 }'', out)"
    by (simp add: run_simps)
  show "apply_rules filepath [(''Foo'', ''Bar'', ''x''), (''Bar'', ''Baz'', ''y'')]
       (''AppError::Foo(1) AppError::Bar(2)'', out)
       = Some (''AppError::Bar { x: 1 } AppError::Baz { y: 2 }'', out)"
    by (simp add: run_simps)
  show "apply_rules filepath [(''Foo'', ''Bar'', ''x''), (''Qux'', ''Foo(z)'', ''y'')]
       (''AppError::Qux(1)'', out)
       = Some (''AppError::Foo(z) { y: 1 }'', out)"
    by (simp add: run_simps)
  show "apply_rules filepath [(''Qux'', ''Foo(z)'', ''y''), (''Foo'', ''Bar'', ''x'')]
       (''AppError::Qux(1)'', out)
       = Some (''AppError::Bar { x: z } { y: 1 }'', out)"
    by (simp add: run_simps)
  show "apply_rules filepath [(''Validation'', ''Validation'', ''reason''),
         (''Validation'', ''Validation'', ''reason'')]
       (''AppError::Validation(x'', out)
       = Some (''AppError::Validation(x'', out @ [diagnostic filepath, diagnostic filepath])"
    by (simp add: rewrite_rule.simps step_def search_def match_at_def is_space_def
        scan.simps slice_def)
  show "\<forall>r\<in>set transformations. \<forall>r'\<in>set transformations.
        match_at (fst r')
          (''AppError::'' @ fst (snd r) @ '' { '' @ snd (snd r) @ '': '' @ rest) = None"
    by (simp add: transformations_def match_at_def is_space_def)
qed

theorem rules_once_in_order_witness:
  "apply_rules ''a.rs'' [(''Foo'', ''Bar'', ''x''), (''Bar'', ''Baz'', ''y'')]
     (''AppError::Foo(1)'', [])
     = Some (''AppError::Bar { x: 1 }'', [])
   \<and> apply_rules ''a.rs'' [(''Foo'', ''Bar'', ''x''), (''Bar'', ''Baz'', ''y'')]
       (''AppError::Foo(1) AppError::Bar(2)'', [])
       = Some (''AppError::Bar { x: 1 } AppError::Baz { y: 2 }'', [])
   \<and> match_at ''Validation'' ''AppError::Validation { reason: f(1) }'' = None
   \<and> match_at ''AssetError'' ''AppError::Internal { message: AppError::AssetError(1) }''
       = None"
proof -
  note t = rules_once_in_order [of "''a.rs''" _ _ _ _ "[]"]
  have v: "(''Validation'', ''Validation'', ''reason'') \<in> set transformations"
    and i: "(''InternalError'', ''Internal'', ''message'') \<in> set transformations"
    and a: "(''AssetError'', ''Asset'', ''message'') \<in> set transformations"
    by (simp_all add: transformations_def)
  from t [of _ _ _ _ "''f(1) }''"] v
  have 1: "match_at ''Validation'' ''AppError::Validation { reason: f(1) }'' = None"
    by fastforce
  from t [of _ _ _ _ "''AppError::AssetError(1) }''"] i a
  have 2: "match_at ''AssetError'' ''AppError::Internal { message: AppError::AssetError(1) }''
       = None"
    by fastforce
  from t 1 2 show ?thesis by blast
qed

text \<open>
  C10: the pattern matches whatever run of white space, line breaks included, stands
  between \<open>AppError::old_variant\<close> and the opening parenthesis; that run lies between the
  start of the match and its end, so a splice drops it: the new buffer is the text before
  the match, the replacement with one space before its brace, and the text after the
  closing parenthesis.
\<close>

theorem space_before_paren_dropped:
  "((\<forall>c\<in>set ws. is_space c) \<longrightarrow>
      match_at old (''AppError::'' @ old @ ws @ ''('' @ rest)
        = Some (length (''AppError::'' @ old) + length ws + 1))
   \<and> (search old buf = Some (a, b) \<and> step (old, new, f) buf = Spliced b' \<longrightarrow>
        (\<forall>c\<in>set (slice buf (a + length (''AppError::'' @ old)) (b - 1)). is_space c)
        \<and> (\<exists>arg S. drop b buf = arg @ '')'' @ S
             \<and> b' = take a buf @ ''AppError::'' @ new @ '' { '' @ f @ '': ''
                      @ arg @ '' }'' @ S))
   \<and> is_space (CHR 0x0A)
   \<and> step (''AssetError'', ''Asset'', ''message'')
        (''AppError::AssetError'' @ [CHR 0x0A, CHR '' '', CHR '' ''] @ ''(1);'')
       = Spliced ''AppError::Asset { message: 1 };''"
proof (intro conjI impI)
  assume "\<forall>c\<in>set ws. is_space c"
  then show "match_at old (''AppError::'' @ old @ ws @ ''('' @ rest)
        = Some (length (''AppError::'' @ old) + length ws + 1)"
    unfolding match_at_iff by auto
next
  assume h: "search old buf = Some (a, b) \<and> step (old, new, f) buf = Spliced b'"
  then obtain P ws arg S where
    buf: "buf = P @ ''AppError::'' @ old @ ws @ CHR ''('' # arg @ CHR '')'' # S"
    and ns: "\<not> starts_in old P (''AppError::'' @ old @ ws @ CHR ''('' # arg @ CHR '')'' # S)"
    and ws: "\<forall>c\<in>set ws. is_space c"
    and b': "b' = P @ ''AppError::'' @ new @ '' { '' @ f @ '': '' @ arg @ '' }'' @ S"
    unfolding step_Spliced by blast
  have "search old buf = Some (length P, length P + 10 + length old + length ws + 1)"
    unfolding search_Some using buf ns ws by blast
  with h have a: "a = length P" and b: "b = length P + 10 + length old + length ws + 1"
    by simp_all
  have "buf = (P @ ''AppError::'' @ old) @ ws @ CHR ''('' # arg @ CHR '')'' # S"
    using buf by simp
  moreover have "length (P @ ''AppError::'' @ old) = a + length (''AppError::'' @ old)"
    using a by simp
  ultimately have d1: "drop (a + length (''AppError::'' @ old)) buf
      = ws @ CHR ''('' # arg @ CHR '')'' # S"
    by (metis append_eq_conv_conj)
  have "b - 1 - (a + length (''AppError::'' @ old)) = length ws"
    using a b by simp
  then have sl: "slice buf (a + length (''AppError::'' @ old)) (b - 1) = ws"
    unfolding slice_def d1 by simp
  have "buf = (P @ ''AppError::'' @ old @ ws @ ''('') @ arg @ CHR '')'' # S"
    using buf by simp
  moreover have "length (P @ ''AppError::'' @ old @ ws @ ''('') = b"
    using b by simp
  ultimately have d2: "drop b buf = arg @ CHR '')'' # S"
    by (metis append_eq_conv_conj)
  have t: "take a buf = P"
    using a buf by simp
  show "\<forall>c\<in>set (slice buf (a + length (''AppError::'' @ old)) (b - 1)). is_space c"
    unfolding sl by (rule ws)
  have "drop b buf = arg @ '')'' @ S
      \<and> b' = take a buf @ ''AppError::'' @ new @ '' { '' @ f @ '': '' @ arg @ '' }'' @ S"
    unfolding d2 t b' by simp
  then show "\<exists>arg S. drop b buf = arg @ '')'' @ S
      \<and> b' = take a buf @ ''AppError::'' @ new @ '' { '' @ f @ '': '' @ arg @ '' }'' @ S"
    by blast
next
  show "is_space (CHR 0x0A)"
    by (simp add: is_space_def)
next
  show "step (''AssetError'', ''Asset'', ''message'')
        (''AppError::AssetError'' @ [CHR 0x0A, CHR '' '', CHR '' ''] @ ''(1);'')
       = Spliced ''AppError::Asset { message: 1 };''"
    by (simp add: run_simps)
qed

theorem space_before_paren_dropped_witness:
  "match_at ''AssetError'' (''AppError::AssetError'' @ [CHR 0x0A, CHR 0x09] @ ''('' @ ''1)'')
     = Some 23
   \<and> search ''AssetError'' (''x = AppError::AssetError'' @ [CHR 0x0A, CHR 0x09] @ ''(1);'')
     = Some (4, 27)
   \<and> slice (''x = AppError::AssetError'' @ [CHR 0x0A, CHR 0x09] @ ''(1);'') 24 26
     = [CHR 0x0A, CHR 0x09]
   \<and> is_space (CHR 0x09)
   \<and> step (''AssetError'', ''Asset'', ''message'')
       (''x = AppError::AssetError'' @ [CHR 0x0A, CHR 0x09] @ ''(1);'')
     = Spliced ''x = AppError::Asset { message: 1 };''"
proof -
  let ?buf = "''x = AppError::AssetError'' @ [CHR 0x0A, CHR 0x09] @ ''(1);''"
  have ws: "\<forall>c\<in>set [CHR 0x0A, CHR 0x09]. is_space c"
    by (simp add: is_space_def)
  have s: "search ''AssetError'' ?buf = Some (4, 27)"
    by (simp add: search_def match_at_def is_space_def)
  have st: "step (''AssetError'', ''Asset'', ''message'') ?buf
     = Spliced ''x = AppError::Asset { message: 1 };''"
    by (simp add: run_simps)
  have sl: "slice ?buf 24 26 = [CHR 0x0A, CHR 0x09]"
    by (simp add: slice_def)
  note t = space_before_paren_dropped [of "[CHR 0x0A, CHR 0x09]" "''AssetError''" "''1)''"
      ?buf 4 27 "''Asset''" "''message''" "''x = AppError::Asset { message: 1 };''"]
  from t ws have m: "match_at ''AssetError''
      (''AppError::AssetError'' @ [CHR 0x0A, CHR 0x09] @ ''('' @ ''1)'') = Some 23"
    by simp
  from t s st have "\<forall>c\<in>set (slice ?buf (4 + length (''AppError::'' @ ''AssetError'')) (27 - 1)).
      is_space c"
    by blast
  then have "is_space (CHR 0x09)"
    using sl by simp
  with m s sl st show ?thesis by blast
qed

section \<open>How far a match reaches\<close>

lemma blocked_tail: "blocked (p # ps) Z \<Longrightarrow> blocked ps Z"
  by simp

lemma blocked_not_completes: "blocked pat Z \<Longrightarrow> \<not> completes pat Z"
  by (cases pat) simp_all

lemma space_run_stops:
  "blocked [] Z \<Longrightarrow> dropWhile is_space (a @ Z) = CHR ''('' # rest \<Longrightarrow>
   length (takeWhile is_space (a @ Z)) + 1 \<le> length a"
proof (induction a)
  case Nil
  then show ?case by (simp split: list.splits)
next
  case (Cons c a)
  then show ?case by (cases "is_space c") auto
qed

lemma literal_stops:
  "blocked pat Z \<Longrightarrow> match_literal pat (a @ Z) = Some r \<Longrightarrow>
   dropWhile is_space r = CHR ''('' # rest \<Longrightarrow>
   length pat + length (takeWhile is_space r) + 1 \<le> length a"
proof (induction a arbitrary: pat)
  case Nil
  from Nil(1) have "\<not> completes pat Z" by (rule blocked_not_completes)
  with Nil(2,3) show ?case by simp
next
  case (Cons c a)
  show ?case
  proof (cases pat)
    case Nil
    with Cons.prems have "r = (c # a) @ Z" by simp
    with Cons.prems Nil space_run_stops [of Z "c # a" rest] show ?thesis by simp
  next
    case (Cons p ps)
    with Cons.prems have "p = c" and "match_literal ps (a @ Z) = Some r" and "blocked ps Z"
      by (auto split: if_splits)
    from Cons.IH [OF this(3,2) Cons.prems(3)] Cons show ?thesis by simp
  qed
qed

lemma match_reach:
  assumes "blocked (''ppError::'' @ old) Z" and "a \<noteq> []"
    and "match_at old (a @ Z) = Some n"
  shows "n \<le> length a"
proof -
  from assms(2) obtain c a' where a: "a = c # a'" by (cases a) auto
  from assms(3) obtain r where r: "match_literal (''AppError::'' @ old) (a @ Z) = Some r"
    by (auto simp: match_at_def split: option.splits)
  from assms(3) r obtain rest where d: "dropWhile is_space r = CHR ''('' # rest"
    and n: "n = 10 + length old + length (takeWhile is_space r) + 1"
    by (auto simp: match_at_def split: option.splits list.splits if_splits)
  from r a have "match_literal (''ppError::'' @ old) (a' @ Z) = Some r"
    by (simp split: if_splits)
  from literal_stops [OF assms(1) this d] n a show ?thesis by simp
qed

lemma append_eq_longer:
  "x @ Y = M @ R \<Longrightarrow> length M \<le> length x \<Longrightarrow> \<exists>x'. x = M @ x' \<and> R = x' @ Y"
  by (auto simp: append_eq_append_conv2)

lemma match_local:
  assumes "match_at old (x @ Y) = Some n" and "n \<le> length x"
  shows "match_at old (x @ Y') = Some n"
proof -
  from assms(1) obtain ws rest where
    e: "x @ Y = (''AppError::'' @ old @ ws @ ''('') @ rest"
    and ws: "\<forall>c\<in>set ws. is_space c" and n: "n = 10 + length old + length ws + 1"
    unfolding match_at_iff by auto
  have "length (''AppError::'' @ old @ ws @ ''('') \<le> length x"
    using n assms(2) by simp
  from append_eq_longer [OF e this]
  obtain x' where "x = (''AppError::'' @ old @ ws @ ''('') @ x'"
    by blast
  then have "x @ Y' = ''AppError::'' @ old @ ws @ CHR ''('' # (x' @ Y')" by simp
  with ws n show ?thesis unfolding match_at_iff by blast
qed

lemma starts_in_blocked:
  assumes "blocked (''ppError::'' @ old) Z" and "blocked (''ppError::'' @ old) Z'"
  shows "starts_in old L Z \<longleftrightarrow> starts_in old L Z'"
proof (induction L)
  case Nil
  show ?case by simp
next
  case (Cons c L)
  have "match_at old ((c # L) @ Z) \<noteq> None \<longleftrightarrow> match_at old ((c # L) @ Z') \<noteq> None"
  proof
    assume "match_at old ((c # L) @ Z) \<noteq> None"
    then obtain n where n: "match_at old ((c # L) @ Z) = Some n" by auto
    from match_reach [OF assms(1) _ n] have "n \<le> length (c # L)" by simp
    from match_local [OF n this] show "match_at old ((c # L) @ Z') \<noteq> None" by simp
  next
    assume "match_at old ((c # L) @ Z') \<noteq> None"
    then obtain n where n: "match_at old ((c # L) @ Z') = Some n" by auto
    from match_reach [OF assms(2) _ n] have "n \<le> length (c # L)" by simp
    from match_local [OF n this] show "match_at old ((c # L) @ Z) \<noteq> None" by simp
  qed
  with Cons show ?case by simp
qed

lemma match_at_head: "match_at old (c # s) = Some n \<Longrightarrow> c = CHR ''A''"
  by (simp add: match_at_def split: if_splits)

lemma match_at_not_A: "c \<noteq> CHR ''A'' \<Longrightarrow> match_at old (c # s) = None"
  by (simp add: match_at_def)

lemma starts_in_no_A: "CHR ''A'' \<notin> set x \<Longrightarrow> \<not> starts_in old x Z"
  by (induction x) (auto simp: match_at_not_A)

lemma starts_in_suffix:
  "vs \<noteq> [] \<Longrightarrow> match_at old (vs @ Z) \<noteq> None \<Longrightarrow> starts_in old (x @ vs) Z"
  by (cases vs) (auto simp: starts_in_append)

section \<open>The rules of the table\<close>

lemma table_blocked_Ap:
  "\<forall>r\<in>set transformations. blocked (''ppError::'' @ fst r) (CHR ''A'' # CHR ''p'' # Y)"
  by (simp add: transformations_def is_space_def)

lemma table_blocked_close:
  "\<forall>r\<in>set transformations. blocked (''AppError::'' @ fst r) (CHR '')'' # Y)"
  by (simp add: transformations_def is_space_def)

lemma table_blocked_brace:
  "\<forall>r\<in>set transformations. blocked (''AppError::'' @ fst r) (CHR '' '' # CHR ''}'' # Y)"
  by (simp add: transformations_def is_space_def)

lemma table_head_free:
  "\<forall>r\<in>set transformations. \<forall>r'\<in>set transformations.
     \<not> starts_in (fst r) (''AppError::'' @ fst (snd r') @ '' { '' @ snd (snd r') @ '': '') Y"
  apply (simp add: transformations_def match_at_not_A)
  apply (simp add: match_at_def is_space_def)
  done

lemma table_trigger_free:
  "\<forall>r\<in>set transformations. \<forall>r'\<in>set transformations.
     \<not> starts_in (fst r) (''ppError::'' @ fst r') Y"
  apply (simp add: transformations_def match_at_not_A)
  apply (simp add: match_at_def)
  done

lemma table_no_parens:
  "\<forall>r\<in>set transformations.
     CHR ''('' \<notin> set (fst r) \<and> CHR '')'' \<notin> set (fst r)
     \<and> CHR ''('' \<notin> set (fst (snd r)) \<and> CHR '')'' \<notin> set (fst (snd r))
     \<and> CHR ''('' \<notin> set (snd (snd r)) \<and> CHR '')'' \<notin> set (snd (snd r))"
  by (simp add: transformations_def)

section \<open>Counts over texts without a closing parenthesis\<close>

lemma upd_no_close: "c \<noteq> CHR '')'' \<Longrightarrow> d \<le> upd c d"
  by simp

lemma upd_neutral: "c \<noteq> CHR ''('' \<Longrightarrow> c \<noteq> CHR '')'' \<Longrightarrow> upd c d = d"
  by simp

lemma unclosed_no_close: "CHR '')'' \<notin> set x \<Longrightarrow> unclosed d x \<longleftrightarrow> 0 < d"
proof (induction x arbitrary: d)
  case Nil
  show ?case by simp
next
  case (Cons c x)
  from Cons.prems have c: "c \<noteq> CHR '')''" and x: "CHR '')'' \<notin> set x" by auto
  from upd_no_close [OF c, of d] have "0 < d \<Longrightarrow> 0 < upd c d" by linarith
  with Cons.IH [OF x, of "upd c d"] show ?case
    by (auto simp del: upd.simps)
qed

lemma delta_no_parens: "CHR ''('' \<notin> set x \<Longrightarrow> CHR '')'' \<notin> set x \<Longrightarrow> delta x = 0"
proof (induction x)
  case Nil
  show ?case by simp
next
  case (Cons c x)
  from Cons.prems have "c \<noteq> CHR ''(''" "c \<noteq> CHR '')''" by auto
  then have "upd c 0 = 0" by (rule upd_neutral)
  with Cons show ?case by (simp del: upd.simps)
qed

lemma space_not_paren: "is_space c \<Longrightarrow> c \<noteq> CHR ''('' \<and> c \<noteq> CHR '')''"
  by (auto simp: is_space_def)

lemma spaces_no_parens:
  "\<forall>c\<in>set ws. is_space c \<Longrightarrow> CHR ''('' \<notin> set ws \<and> CHR '')'' \<notin> set ws"
  using space_not_paren by blast

lemma unclosed_after_splice:
  assumes u: "unclosed d (us @ M @ arg @ CHR '')'' # S)"
    and a: "unclosed 1 arg" "delta arg = 0"
    and M: "CHR '')'' \<notin> set M" "delta M = 1"
    and H: "CHR ''('' \<notin> set H" "CHR '')'' \<notin> set H"
  shows "unclosed d (us @ H @ arg @ '' }'' @ S)"
proof -
  define e where "e = d + delta us"
  from u have 1: "unclosed d us" and m: "unclosed e (M @ arg @ CHR '')'' # S)"
    unfolding e_def by (simp_all only: unclosed_append)
  from m have 2: "0 < e" by (rule unclosed_pos)
  from m have "unclosed (e + 1) (arg @ CHR '')'' # S)"
    by (simp only: unclosed_append M(2))
  then have "unclosed (e + 1 + 0) (CHR '')'' # S)"
    by (simp only: unclosed_append a(2))
  then have 3: "unclosed e S" by simp
  from 2 have "1 \<le> e" by simp
  with a(1) have 4: "unclosed e arg" by (rule unclosed_mono)
  from 3 2 have 5: "unclosed e ('' }'' @ S)" by simp
  have dH: "delta H = 0" using H by (rule delta_no_parens)
  have 6: "unclosed e H" using 2 by (simp only: unclosed_no_close [OF H(2)])
  have "unclosed e (H @ arg @ '' }'' @ S)"
    using 4 5 6 by (simp only: unclosed_append dH a(2) add_0_right simp_thms)
  with 1 show ?thesis
    unfolding e_def by (simp only: unclosed_append simp_thms)
qed

section \<open>Matches of one rule across a splice of another\<close>

lemma table_triggers_differ:
  "\<forall>r\<in>set transformations. \<forall>r'\<in>set transformations.
     fst r @ x = fst r' @ y \<longrightarrow> fst r = fst r'"
  by (simp add: transformations_def)

lemma blocked_Ap:
  assumes "r \<in> set transformations"
  shows "blocked (''ppError::'' @ fst r) (''AppError::'' @ Y)"
  using table_blocked_Ap [of "''pError::'' @ Y"] assms by simp

lemma blocked_close:
  assumes "r \<in> set transformations"
  shows "blocked (''ppError::'' @ fst r) (CHR '')'' # Y)"
proof -
  from table_blocked_close [of Y] assms
  have "blocked (CHR ''A'' # ''ppError::'' @ fst r) (CHR '')'' # Y)" by simp
  then show ?thesis by (rule blocked_tail)
qed

lemma blocked_brace:
  assumes "r \<in> set transformations"
  shows "blocked (''ppError::'' @ fst r) (CHR '' '' # CHR ''}'' # Y)"
proof -
  from table_blocked_brace [of Y] assms
  have "blocked (CHR ''A'' # ''ppError::'' @ fst r) (CHR '' '' # CHR ''}'' # Y)" by simp
  then show ?thesis by (rule blocked_tail)
qed

lemma starts_in_transfer:
  assumes r: "r \<in> set transformations" and r': "r' \<in> set transformations"
    and st: "starts_in (fst r)
        (P @ (''AppError::'' @ fst (snd r') @ '' { '' @ snd (snd r') @ '': '') @ arg
           @ '' }'' @ s1) U"
  shows "starts_in (fst r)
        (P @ (''AppError::'' @ fst r' @ ws @ ''('') @ arg @ '')'' @ s1) U"
proof -
  define old where "old = fst r"
  define H where "H = ''AppError::'' @ fst (snd r') @ '' { '' @ snd (snd r') @ '': ''"
  define M where "M = ''AppError::'' @ fst r' @ ws @ ''(''"
  define E where "E = '' }''"
  define C where "C = '')''"
  have H: "H @ Y = ''AppError::'' @ (fst (snd r') @ '' { '' @ snd (snd r') @ '': '' @ Y)" for Y
    by (simp add: H_def)
  have M: "M @ Y = ''AppError::'' @ (fst r' @ ws @ ''('' @ Y)" for Y
    by (simp add: M_def)
  from st have "starts_in old (P @ H @ arg @ E @ s1) U"
    by (simp only: old_def H_def E_def)
  then consider
      (1) "starts_in old P (H @ arg @ E @ s1 @ U)"
    | (2) "starts_in old H (arg @ E @ s1 @ U)"
    | (3) "starts_in old arg (E @ s1 @ U)"
    | (4) "starts_in old E (s1 @ U)"
    | (5) "starts_in old s1 U"
    by (auto simp only: starts_in_append append_assoc)
  then have "starts_in old (P @ M @ arg @ C @ s1) U"
  proof cases
    case 1
    have "starts_in old P (H @ arg @ E @ s1 @ U) \<longleftrightarrow> starts_in old P (M @ arg @ C @ s1 @ U)"
      unfolding old_def H M by (rule starts_in_blocked) (rule blocked_Ap [OF r])+
    with 1 show ?thesis by (simp only: starts_in_append append_assoc simp_thms)
  next
    case 2
    with table_head_free [of "arg @ E @ s1 @ U"] r r' show ?thesis
      unfolding old_def H_def by blast
  next
    case 3
    have b1: "blocked (''ppError::'' @ old) (E @ s1 @ U)"
      unfolding old_def E_def using blocked_brace [OF r, of "s1 @ U"] by simp
    have b2: "blocked (''ppError::'' @ old) (C @ s1 @ U)"
      unfolding old_def C_def using blocked_close [OF r, of "s1 @ U"] by simp
    have "starts_in old arg (E @ s1 @ U) \<longleftrightarrow> starts_in old arg (C @ s1 @ U)"
      using b1 b2 by (rule starts_in_blocked)
    with 3 show ?thesis by (simp only: starts_in_append append_assoc simp_thms)
  next
    case 4
    have "CHR ''A'' \<notin> set E" by (simp add: E_def)
    from starts_in_no_A [OF this] 4 show ?thesis by blast
  next
    case 5
    then show ?thesis by (simp only: starts_in_append append_assoc simp_thms)
  qed
  then show ?thesis
    by (simp only: old_def M_def C_def)
qed

lemma not_space_A: "\<not> is_space CHR ''A''"
  by (simp add: is_space_def)

lemma triggers_differ:
  "r \<in> set transformations \<Longrightarrow> r' \<in> set transformations \<Longrightarrow>
   fst r @ x = fst r' @ y \<Longrightarrow> fst r = fst r'"
  using table_triggers_differ by blast

lemma trigger_free:
  "r \<in> set transformations \<Longrightarrow> r' \<in> set transformations \<Longrightarrow>
   \<not> starts_in (fst r) (''ppError::'' @ fst r') Y"
  using table_trigger_free by blast

lemma quiet_transfer:
  assumes r: "r \<in> set transformations" and r': "r' \<in> set transformations"
    and q: "\<not> splices (step r buf)" and sp: "step r' buf = Spliced b"
  shows "\<not> splices (step r b)"
proof -
  obtain old new f where R: "r = (old, new, f)" by (cases r) auto
  obtain old' new' f' where R': "r' = (old', new', f')" by (cases r') auto
  from sp [unfolded R' step_Spliced] obtain P ws arg S where
    buf: "buf = P @ ''AppError::'' @ old' @ ws @ CHR ''('' # arg @ CHR '')'' # S"
    and ns': "\<not> starts_in old' P (''AppError::'' @ old' @ ws @ CHR ''('' # arg @ CHR '')'' # S)"
    and ws: "\<forall>c\<in>set ws. is_space c" and ua: "unclosed 1 arg" and da: "delta arg = 0"
    and b: "b = P @ ''AppError::'' @ new' @ '' { '' @ f' @ '': '' @ arg @ '' }'' @ S"
    by blast
  define H where "H = ''AppError::'' @ new' @ '' { '' @ f' @ '': ''"
  define M' where "M' = ''AppError::'' @ old' @ ws @ ''(''"
  define E where "E = '' }''"
  define C where "C = '')''"
  have buf1: "buf = P @ M' @ arg @ C @ S"
    using buf by (simp add: M'_def C_def)
  have b1: "b = P @ H @ arg @ E @ S"
    using b by (simp add: H_def E_def)
  have tr: "starts_in old (P @ M' @ arg @ C @ s1) U"
    if "starts_in old (P @ H @ arg @ E @ s1) U" for s1 U
    using starts_in_transfer [OF r r', of P arg s1 U ws] that
    by (simp add: R R' H_def M'_def E_def C_def)
  from table_no_parens r' have np:
    "CHR ''('' \<notin> set old'" "CHR '')'' \<notin> set old'" "CHR ''('' \<notin> set new'"
    "CHR '')'' \<notin> set new'" "CHR ''('' \<notin> set f'" "CHR '')'' \<notin> set f'"
    by (auto simp: R')
  from spaces_no_parens [OF ws] have wnp: "CHR ''('' \<notin> set ws" "CHR '')'' \<notin> set ws"
    by simp_all
  have M'np: "CHR '')'' \<notin> set M'"
    using np wnp by (simp add: M'_def)
  have "delta (''AppError::'' @ old' @ ws) = 0"
    using np wnp by (intro delta_no_parens) simp_all
  then have M'd: "delta M' = 1"
    unfolding M'_def using delta_append [of "''AppError::'' @ old' @ ws" "''(''"] by simp
  have Hnp: "CHR ''('' \<notin> set H" "CHR '')'' \<notin> set H"
    using np by (simp_all add: H_def)
  show ?thesis
  proof (cases "step r buf")
    case NoMatch
    then have "\<not> starts_in old buf []" by (simp add: R step_NoMatch)
    with tr [of S "[]"] have "\<not> starts_in old b []"
      unfolding buf1 b1 by auto
    then have "step r b = NoMatch" by (simp add: R step_NoMatch)
    then show ?thesis by simp
  next
    case (Spliced x)
    with q show ?thesis by simp
  next
    case Unbalanced
    from this [unfolded R step_Unbalanced] obtain L ws0 rest where
      buf0: "buf = L @ ''AppError::'' @ old @ ws0 @ CHR ''('' # rest"
      and ns0: "\<not> starts_in old L (''AppError::'' @ old @ ws0 @ CHR ''('' # rest)"
      and ws0: "\<forall>c\<in>set ws0. is_space c" and ur: "unclosed 1 rest"
      by blast
    define M0 where "M0 = ''AppError::'' @ old @ ws0 @ ''(''"
    define X where "X = M0 @ rest"
    have buf2: "buf = L @ X"
      using buf0 by (simp add: X_def M0_def)
    have ns0': "\<not> starts_in old L X"
      using ns0 by (simp add: X_def M0_def)
    have M0: "M0 @ Y = ''AppError::'' @ old @ ws0 @ CHR ''('' # Y" for Y
      by (simp add: M0_def)
    have M0A: "M0 @ Y = ''AppError::'' @ (old @ ws0 @ ''('' @ Y)" for Y
      by (simp add: M0_def)
    have M'A: "M' @ Y = ''AppError::'' @ (old' @ ws @ ''('' @ Y)" for Y
      by (simp add: M'_def)
    have HA: "H @ Y = ''AppError::'' @ (new' @ '' { '' @ f' @ '': '' @ Y)" for Y
      by (simp add: H_def)
    have lM0: "length M0 = 10 + length old + length ws0 + 1"
      by (simp add: M0_def)
    have mM0: "match_at old (M0 @ Y) = Some (length M0)" for Y
      unfolding match_at_iff M0 lM0 using ws0 by blast
    have mX: "match_at old X = Some (length M0)"
      unfolding X_def by (rule mM0)
    have concl: "\<not> splices (step r b)"
      if "b = L2 @ M0 @ rest2" "\<not> starts_in old L2 (M0 @ rest2)" "unclosed 1 rest2"
      for L2 rest2
    proof -
      have "step (old, new, f) b = Unbalanced"
        unfolding step_Unbalanced using that ws0 unfolding M0 by blast
      then show ?thesis by (simp add: R)
    qed
    have same: False if "L = P" "X = M' @ Z" for Z
    proof -
      from that(2) have "old @ (ws0 @ ''('' @ rest) = old' @ (ws @ ''('' @ Z)"
        unfolding X_def M0A M'A by simp
      with triggers_differ [OF r r', of "ws0 @ ''('' @ rest" "ws @ ''('' @ Z"]
      have "old = old'"
        unfolding R R' by simp
      have "step (old, new, f) buf = Spliced (P @ ''AppError::'' @ new @ '' { '' @ f
          @ '': '' @ arg @ '' }'' @ S)"
        unfolding step_Spliced using buf ns' ws ua da unfolding \<open>old = old'\<close> by blast
      with Unbalanced show False by (simp add: R)
    qed
    from buf1 buf2 have "L @ X = P @ (M' @ arg @ C @ S)" by simp
    then consider
        (A) us where "L @ us = P" "X = us @ M' @ arg @ C @ S"
      | (B) us where "L = P @ us" "us @ X = M' @ arg @ C @ S"
      unfolding append_eq_append_conv2 by blast
    then show ?thesis
    proof cases
      case A
      show ?thesis
      proof (cases "us = []")
        case True
        with A same [of "arg @ C @ S"] show ?thesis by simp
      next
        case False
        have bl: "blocked (''ppError::'' @ old) (M' @ Y)" for Y
          unfolding M'A using blocked_Ap [OF r] by (simp add: R)
        have blH: "blocked (''ppError::'' @ old) (H @ Y)" for Y
          unfolding HA using blocked_Ap [OF r] by (simp add: R)
        from mX A(2) have "match_at old (us @ (M' @ arg @ C @ S)) = Some (length M0)"
          by simp
        from match_reach [OF bl False this] have "length M0 \<le> length us" .
        with A(2) obtain x' where x': "us = M0 @ x'" "rest = x' @ M' @ arg @ C @ S"
          unfolding X_def using append_eq_longer [of us "M' @ arg @ C @ S" M0 rest]
          by auto
        have 1: "b = L @ M0 @ (x' @ H @ arg @ E @ S)"
          unfolding b1 A(1) [symmetric] x' by simp
        have "starts_in old L (M0 @ Y) \<longleftrightarrow> starts_in old L (M0 @ Y')" for Y Y'
          unfolding M0A using blocked_Ap [OF r, of "old @ ws0 @ ''('' @ Y"]
            blocked_Ap [OF r, of "old @ ws0 @ ''('' @ Y'"]
          unfolding R by (simp only: fst_conv) (rule starts_in_blocked)
        with ns0' have 2: "\<not> starts_in old L (M0 @ (x' @ H @ arg @ E @ S))"
          unfolding X_def by blast
        from ur have "unclosed 1 (x' @ M' @ arg @ CHR '')'' # S)"
          unfolding x' C_def by simp
        from unclosed_after_splice [OF this ua da M'np M'd Hnp]
        have 3: "unclosed 1 (x' @ H @ arg @ E @ S)"
          unfolding E_def .
        from concl [OF 1 2 3] show ?thesis .
      qed
    next
      case B
      show ?thesis
      proof (cases "us = []")
        case True
        with B same [of "arg @ C @ S"] show ?thesis by simp
      next
        case False
        have inner: ?thesis if vs: "us = M' @ vs" "vs @ X = arg @ C @ S" for vs
        proof -
          from vs(2) consider
              (a) ts where "vs @ ts = arg" "X = ts @ C @ S"
            | (b) ts where "vs = arg @ ts" "ts @ X = C @ S"
            unfolding append_eq_append_conv2 by blast
          then show ?thesis
          proof cases
            case a
            have tsne: "ts \<noteq> []"
            proof
              assume "ts = []"
              with a(2) mX have "match_at old (CHR '')'' # S) = Some (length M0)"
                by (simp add: C_def)
              then show False by (simp add: match_at_not_A)
            qed
            have bl: "blocked (''ppError::'' @ old) (C @ S)"
              unfolding C_def using blocked_close [OF r, of S] by (simp add: R)
            from mX a(2) have "match_at old (ts @ (C @ S)) = Some (length M0)" by simp
            from match_reach [OF bl tsne this] have "length M0 \<le> length ts" .
            with a(2) obtain a2 where a2: "ts = M0 @ a2" "rest = a2 @ C @ S"
              unfolding X_def using append_eq_longer [of ts "C @ S" M0 rest] by auto
            from ur have "unclosed (1 + delta a2) (C @ S)"
              unfolding a2 by (simp only: unclosed_append)
            then have "unclosed (delta a2) S" by (simp add: C_def)
            then have p1: "0 < delta a2" by (rule unclosed_pos)
            from ua have "unclosed 1 ((vs @ M0) @ a2)"
              unfolding a(1) [symmetric] a2 by simp
            then have "unclosed (1 + delta (vs @ M0)) a2"
              by (simp only: unclosed_append)
            then have p2: "0 < 1 + delta (vs @ M0)" by (rule unclosed_pos)
            from da have "delta (vs @ M0) + delta a2 = 0"
              unfolding a(1) [symmetric] a2 by (simp only: delta_append append_assoc)
            with p1 p2 show ?thesis by simp
          next
            case b
            show ?thesis
            proof (cases ts)
              case Nil
              with b(2) mX have "match_at old (CHR '')'' # S) = Some (length M0)"
                by (simp add: C_def)
              then show ?thesis by (simp add: match_at_not_A)
            next
              case (Cons t ts')
              with b(2) have S: "S = ts' @ X" by (simp add: C_def)
              have L: "L = P @ M' @ arg @ C @ ts'"
                unfolding B(1) vs(1) b(1) using Cons b(2) by (simp add: C_def)
              have 1: "b = (P @ H @ arg @ E @ ts') @ M0 @ rest"
                unfolding b1 S X_def by simp
              have 2: "\<not> starts_in old (P @ H @ arg @ E @ ts') (M0 @ rest)"
                using tr [of ts' X] ns0' unfolding L X_def by blast
              from concl [OF 1 2 ur] show ?thesis .
            qed
          qed
        qed
        from B(2) consider
            (B1) vs where "us @ vs = M'" "X = vs @ arg @ C @ S"
          | (B2) vs where "us = M' @ vs" "vs @ X = arg @ C @ S"
          unfolding append_eq_append_conv2 by blast
        then show ?thesis
        proof cases
          case B2
          then show ?thesis by (rule inner)
        next
          case B1
          show ?thesis
          proof (cases "vs = []")
            case True
            with B1 inner [of "[]"] show ?thesis by simp
          next
            case vne: False
            from False obtain c us' where us: "us = c # us'" by (cases us) auto
            with B1(1) have tl: "''ppError::'' @ old' @ ws @ ''('' = us' @ vs"
              unfolding M'_def by simp
            from mX B1(2) have "match_at old (vs @ (arg @ C @ S)) \<noteq> None" by simp
            from starts_in_suffix [OF vne this, of us']
            have "starts_in old ((''ppError::'' @ old') @ (ws @ ''('')) (arg @ C @ S)"
              unfolding tl [symmetric] by simp
            then consider
                (i) "starts_in old (''ppError::'' @ old') ((ws @ ''('') @ arg @ C @ S)"
              | (ii) "starts_in old (ws @ ''('') (arg @ C @ S)"
              unfolding starts_in_append by blast
            then show ?thesis
            proof cases
              case i
              with trigger_free [OF r r', of "(ws @ ''('') @ arg @ C @ S"]
              show ?thesis unfolding R R' by simp
            next
              case ii
              have "CHR ''A'' \<notin> set (ws @ ''('')"
                using ws not_space_A by auto
              from starts_in_no_A [OF this] ii show ?thesis by blast
            qed
          qed
        qed
      qed
    qed
  qed
qed

section \<open>A second run changes nothing\<close>

lemma rewrite_rule_invariant:
  assumes run: "rewrite_rule filepath r st = Some st'"
    and init: "I (fst st)"
    and pres: "\<And>buf b. I buf \<Longrightarrow> step r buf = Spliced b \<Longrightarrow> I b"
  shows "I (fst st') \<and> \<not> splices (step r (fst st'))"
proof -
  have "r = r \<longrightarrow> I (fst st) \<longrightarrow> I (fst st') \<and> \<not> splices (step r (fst st'))"
  proof (rule rewrite_rule.raw_induct [where P = "\<lambda>fp r0 st0 y.
      r0 = r \<longrightarrow> I (fst st0) \<longrightarrow> I (fst y) \<and> \<not> splices (step r (fst y))", OF _ run])
    fix rec fp r0 st0 y
    assume IH: "\<And>fp r0 st0 y. rec fp r0 st0 = Some y \<Longrightarrow>
        r0 = r \<longrightarrow> I (fst st0) \<longrightarrow> I (fst y) \<and> \<not> splices (step r (fst y))"
      and body: "(case step r0 (fst st0) of
          NoMatch \<Rightarrow> Some st0
        | Unbalanced \<Rightarrow> Some (fst st0, snd st0 @ [diagnostic fp])
        | Spliced b \<Rightarrow> rec fp r0 (b, snd st0)) = Some y"
    show "r0 = r \<longrightarrow> I (fst st0) \<longrightarrow> I (fst y) \<and> \<not> splices (step r (fst y))"
    proof (intro impI)
      assume eq: "r0 = r" and i: "I (fst st0)"
      show "I (fst y) \<and> \<not> splices (step r (fst y))"
      proof (cases "step r (fst st0)")
        case NoMatch
        with body eq have "y = st0" by simp
        with i NoMatch show ?thesis by simp
      next
        case Unbalanced
        with body eq have "fst y = fst st0" by auto
        with i Unbalanced show ?thesis by simp
      next
        case (Spliced b)
        with body eq have "rec fp r (b, snd st0) = Some y" by simp
        from IH [OF this] pres [OF i Spliced] show ?thesis by simp
      qed
    qed
  qed
  with init show ?thesis by simp
qed

lemma rewrite_rule_quiet:
  assumes "\<not> splices (step r buf)"
  shows "\<exists>out'. rewrite_rule filepath r (buf, out) = Some (buf, out')"
proof (cases "step r buf")
  case NoMatch
  then show ?thesis by (subst rewrite_rule.simps) simp
next
  case Unbalanced
  then show ?thesis by (subst rewrite_rule.simps) simp
next
  case (Spliced b)
  with assms show ?thesis by simp
qed

lemma apply_rules_quiet:
  assumes "set rs \<subseteq> set transformations" and "Q \<subseteq> set transformations"
    and "apply_rules filepath rs st = Some st'"
    and "\<forall>q\<in>Q. \<not> splices (step q (fst st))"
  shows "\<forall>q\<in>Q \<union> set rs. \<not> splices (step q (fst st'))"
  using assms
proof (induction rs arbitrary: st Q)
  case Nil
  then show ?case by simp
next
  case (Cons r rs)
  from Cons.prems(3) obtain st1 where
    1: "rewrite_rule filepath r st = Some st1" and 2: "apply_rules filepath rs st1 = Some st'"
    by (auto split: option.splits)
  from Cons.prems(1) have r: "r \<in> set transformations" by simp
  have pres: "\<forall>q\<in>Q. \<not> splices (step q b)"
    if "\<forall>q\<in>Q. \<not> splices (step q buf)" "step r buf = Spliced b" for buf b
  proof
    fix q assume q: "q \<in> Q"
    with Cons.prems(2) have "q \<in> set transformations" by blast
    from quiet_transfer [OF this r _ that(2)] that(1) q show "\<not> splices (step q b)"
      by blast
  qed
  from rewrite_rule_invariant [of filepath r st st1
      "\<lambda>buf. \<forall>q\<in>Q. \<not> splices (step q buf)", OF 1 Cons.prems(4) pres]
  have 3: "\<forall>q\<in>insert r Q. \<not> splices (step q (fst st1))" by simp
  from Cons.prems(1,2) r have "set rs \<subseteq> set transformations"
    "insert r Q \<subseteq> set transformations"
    by simp_all
  from Cons.IH [OF this 2 3] show ?case by simp
qed

lemma apply_rules_fixed:
  assumes "\<forall>r\<in>set rs. \<not> splices (step r buf)"
  shows "\<exists>out'. apply_rules filepath rs (buf, out) = Some (buf, out')"
  using assms
proof (induction rs arbitrary: out)
  case Nil
  then show ?case by simp
next
  case (Cons r rs)
  then obtain out1 where "rewrite_rule filepath r (buf, out) = Some (buf, out1)"
    using rewrite_rule_quiet [of r buf filepath out] by auto
  moreover from Cons obtain out2 where "apply_rules filepath rs (buf, out1) = Some (buf, out2)"
    by fastforce
  ultimately show ?case by simp
qed

text \<open>
  C3: \<open>refactor_file\<close> run on a file, and run again on the buffer the first run
  ended with, ends the second time with that same buffer and does not write the file.
\<close>

theorem refactor_file_idempotent:
  "\<exists>res res'. refactor_file filepath content = Some res
     \<and> refactor_file filepath (new_content res) = Some res'
     \<and> new_content res' = new_content res \<and> written res' = None"
proof -
  from apply_rules_total [OF transformations_no_paren]
  obtain F out where 1: "apply_rules filepath transformations (content, []) = Some (F, out)"
    by (metis surj_pair)
  define res where "res = (if F \<noteq> content
      then \<lparr>new_content = F, printed = out @ [''Updating '' @ filepath], written = Some F\<rparr>
      else \<lparr>new_content = F, printed = out, written = None\<rparr>)"
  have r1: "refactor_file filepath content = Some res"
    using 1 by (simp add: refactor_file_def res_def)
  have F: "new_content res = F" by (simp add: res_def)
  from apply_rules_quiet [of transformations "{}" filepath "(content, [])" "(F, out)"] 1
  have "\<forall>r\<in>set transformations. \<not> splices (step r F)" by simp
  from apply_rules_fixed [OF this, of filepath "[]"]
  obtain out' where "apply_rules filepath transformations (F, []) = Some (F, out')"
    by blast
  then have "refactor_file filepath F
      = Some \<lparr>new_content = F, printed = out', written = None\<rparr>"
    by (simp add: refactor_file_def)
  with r1 F show ?thesis by simp
qed

theorem refactor_file_idempotent_witness:
  "\<exists>res res'. refactor_file ''src/error.rs''
        ''AppError::Validation(AppError::InternalError(x)) AppError::AssetError(y'' = Some res
     \<and> refactor_file ''src/error.rs'' (new_content res) = Some res'
     \<and> new_content res' = new_content res \<and> written res' = None"
  by (rule refactor_file_idempotent)

section \<open>An unclosed occurrence anywhere in the buffer\<close>








end
